theory Spec2Isabelle
  imports Main "HOL-Library.Sublist"
begin

section \<open>Go strings as byte sequences\<close>

text \<open>
  A Go \<^verbatim>\<open>string\<close> is a sequence of bytes (UTF-8 by convention only), and
  \<^verbatim>\<open>strings.Contains\<close>, \<^verbatim>\<open>strings.Replace\<close>, \<^verbatim>\<open>len\<close> and \<^verbatim>\<open>==\<close> work on
  the bytes. A string is modelled as \<^typ>\<open>string\<close>, a list of 8-bit characters; a
  code point outside ASCII is written as its UTF-8 bytes.
\<close>

definition isASCII :: "char \<Rightarrow> bool" where
  \<comment> \<open>\<^verbatim>\<open>c < utf8.RuneSelf\<close>\<close>
  "isASCII c \<longleftrightarrow> (of_char c :: nat) < 128"

definition lowerByte :: "char \<Rightarrow> char" where
  \<comment> \<open>\<^verbatim>\<open>if 'A' <= c && c <= 'Z' { c += 'a' - 'A' }\<close>\<close>
  "lowerByte c = (let n = (of_char c :: nat) in if 65 \<le> n \<and> n \<le> 90 then char_of (n + 32) else c)"

definition upperByte :: "char \<Rightarrow> char" where
  \<comment> \<open>\<^verbatim>\<open>if 'a' <= c && c <= 'z' { c -= 'a' - 'A' }\<close>\<close>
  "upperByte c = (let n = (of_char c :: nat) in if 97 \<le> n \<and> n \<le> 122 then char_of (n - 32) else c)"

fun Contains :: "string \<Rightarrow> string \<Rightarrow> bool" where
  \<comment> \<open>\<^verbatim>\<open>strings.Contains(s, substr)\<close>: \<open>substr\<close> occurs in \<open>s\<close> as a contiguous run of bytes\<close>
  "Contains [] substr = (substr = [])"
| "Contains (c # s) substr = (prefix substr (c # s) \<or> Contains s substr)"

fun ReplaceAll :: "string \<Rightarrow> string \<Rightarrow> string \<Rightarrow> string" where
  \<comment> \<open>\<^verbatim>\<open>strings.ReplaceAll(s, old, new)\<close>, which is \<^verbatim>\<open>strings.Replace(s, old, new, -1)\<close>:
      the occurrences of \<open>old\<close> are found from the left and do not overlap. Every call of
      the program passes a non-empty \<open>old\<close>; for an empty one (where Go inserts \<open>new\<close>
      around every rune) the model leaves \<open>s\<close> as it is.\<close>
  "ReplaceAll [] old new = []"
| "ReplaceAll (c # s) old new =
     (if old \<noteq> [] \<and> prefix old (c # s)
      then new @ ReplaceAll (drop (length old - 1) s) old new
      else c # ReplaceAll s old new)"

fun Join :: "string list \<Rightarrow> string \<Rightarrow> string" where
  \<comment> \<open>\<^verbatim>\<open>strings.Join(elems, sep)\<close>\<close>
  "Join [] sep = []"
| "Join [x] sep = x"
| "Join (x # y # zs) sep = x @ sep @ Join (y # zs) sep"

section \<open>The library functions the filter calls\<close>

text \<open>
  \<^verbatim>\<open>Check\<close> calls into Go's standard library and \<^verbatim>\<open>golang.org/x/text\<close>, which are not
  part of the repository. What the model fixes about them is what their own code does
  on ASCII input; everything else is a parameter of the model, the record
  \<open>unicode_lib\<close>:
  \<^item> \<open>map_ToLower\<close> is \<^verbatim>\<open>strings.Map(unicode.ToLower, s)\<close>, the path \<^verbatim>\<open>strings.ToLower\<close>
    takes when \<open>s\<close> has a byte outside ASCII, and \<open>map_ToUpper\<close> likewise for
    \<^verbatim>\<open>strings.ToUpper\<close>;
  \<^item> \<open>chain_Transform n src\<close> is the call
    \<^verbatim>\<open>transform.Chain(norm.NFD, transform.RemoveFunc(isMn), norm.NFC).Transform(dst, src, true)\<close>
    with a destination of \<open>n\<close> bytes: \<open>Inl err\<close> when it returns an error, and
    \<open>Inr out\<close> when it returns no error and has written \<open>out\<close> to the front of \<open>dst\<close>.
\<close>

datatype error = ErrShortDst | ErrShortSrc
  \<comment> \<open>the errors a transformer returns: \<^verbatim>\<open>transform.ErrShortDst\<close>, the destination is
      too short for the output, and \<^verbatim>\<open>transform.ErrShortSrc\<close>\<close>

record unicode_lib =
  map_ToLower :: "string \<Rightarrow> string"
  map_ToUpper :: "string \<Rightarrow> string"
  chain_Transform :: "nat \<Rightarrow> string \<Rightarrow> error + string"

definition ToLower :: "unicode_lib \<Rightarrow> string \<Rightarrow> string" where
  \<comment> \<open>\<^verbatim>\<open>strings.ToLower\<close>: a string of ASCII bytes is lowered byte by byte, any other goes
      through \<^verbatim>\<open>strings.Map\<close>\<close>
  "ToLower L s = (if list_all isASCII s then map lowerByte s else map_ToLower L s)"

definition ToUpper :: "unicode_lib \<Rightarrow> string \<Rightarrow> string" where
  \<comment> \<open>\<^verbatim>\<open>strings.ToUpper\<close>, the upper-cased form of a text\<close>
  "ToUpper L s = (if list_all isASCII s then map upperByte s else map_ToUpper L s)"

definition NUL :: char where
  "NUL = CHR 0x00"

definition normalizeTransform :: "unicode_lib \<Rightarrow> string \<Rightarrow> error + string" where
  \<comment> \<open>Lines 97 to 105 of \<^verbatim>\<open>Check\<close>: \<^verbatim>\<open>bytes := make([]byte, len(message))\<close> is a buffer of
      \<open>length message\<close> zero bytes, the chain writes its output to the front of it, and
      \<^verbatim>\<open>string(bytes)\<close> is the whole buffer. The chain cannot write past the buffer
      (\<open>take\<close>). A message of ASCII bytes is in both normal forms and has no
      nonspacing mark: the three transformers copy it, and it fills the buffer.\<close>
  "normalizeTransform L message =
     (if list_all isASCII message then Inr message
      else (case chain_Transform L (length message) message of
              Inl err \<Rightarrow> Inl err
            | Inr out \<Rightarrow>
                Inr (take (length message)
                      (out @ replicate (length message - length out) NUL))))"

section \<open>The substitution tables\<close>

text \<open>
  The three tables are Go maps; they are listed here in the order of the source text.
  The pattern of the third entry of \<open>multiCharLeet\<close> is the raw string of four bytes
  backslash, slash, backslash, slash, and the euro sign is its three UTF-8 bytes.
\<close>

definition multiCharLeet :: "(string \<times> string) list" where
  "multiCharLeet =
     [(''vv'', ''w''), (''uu'', ''w''),
      ([CHR 0x5C, CHR ''/'', CHR 0x5C, CHR ''/''], ''w''),
      (''><'', ''x''), (''1<'', ''k''), (''|<'', ''k''),
      (''()'', ''o''), (''[]'', ''o''), (''ph'', ''f'')]"

definition leetChars :: "(string \<times> string) list" where
  "leetChars =
     [(''4'', ''a''), (''@'', ''a''), (''8'', ''b''), (''('', ''c''), (''<'', ''c''),
      (''['', ''c''), (''3'', ''e''), ([CHR 0xE2, CHR 0x82, CHR 0xAC], ''e''),
      (''6'', ''g''), (''9'', ''g''), (''#'', ''h''), (''j'', ''i''), (''0'', ''o''),
      (''5'', ''s''), (''$'', ''s''), (''7'', ''t''), (''+'', ''t''), (''v'', ''u''),
      (''2'', ''z'')]"

definition ambiguousLeetMap :: "(string \<times> string list) list" where
  "ambiguousLeetMap =
     [(''!'', [''i'', ''l'']), (''|'', [''i'', ''l'']), (''1'', [''i'', ''l'']),
      ('']'', [''i'', ''l'']), (''}'', [''i'', ''l''])]"

text \<open>
  A \<^verbatim>\<open>range\<close> over a Go map yields every entry once, in an order the language leaves
  open and that may differ from one loop to the next. The order in which one call of
  \<^verbatim>\<open>normalizeLeetSpeak\<close> meets the entries of each table is a parameter of the model.
\<close>

record range_order =
  multi_order :: "(string \<times> string) list"
  single_order :: "(string \<times> string) list"
  ambiguous_order :: "(string \<times> string list) list"

definition valid_order :: "range_order \<Rightarrow> bool" where
  "valid_order R \<longleftrightarrow>
     distinct (multi_order R) \<and> set (multi_order R) = set multiCharLeet \<and>
     distinct (single_order R) \<and> set (single_order R) = set leetChars \<and>
     distinct (ambiguous_order R) \<and> set (ambiguous_order R) = set ambiguousLeetMap"

definition source_order :: range_order where
  \<comment> \<open>one of the possible orders: that of the source text\<close>
  "source_order =
     \<lparr>multi_order = multiCharLeet, single_order = leetChars,
      ambiguous_order = ambiguousLeetMap\<rparr>"

text \<open>
  The bytes that begin a pattern of the multi-character or of the single-character
  table, and the texts that hold none of them: no rule of the two tables can start a
  match inside such a text.
\<close>

definition leetFirstBytes :: "char list" where
  "leetFirstBytes = map (\<lambda>e. hd (fst e)) (multiCharLeet @ leetChars)"

definition plain :: "string \<Rightarrow> bool" where
  "plain s \<longleftrightarrow> list_all (\<lambda>c. c \<notin> set leetFirstBytes) s"

section \<open>The leet normalizer\<close>

fun applyTable :: "(string \<times> string) list \<Rightarrow> string \<Rightarrow> string" where
  \<comment> \<open>\<^verbatim>\<open>for leet, normal := range table { normalized = strings.ReplaceAll(normalized, leet, normal) }\<close>\<close>
  "applyTable [] normalized = normalized"
| "applyTable ((leet, normal) # rest) normalized =
     applyTable rest (ReplaceAll normalized leet normal)"

fun appendReplacements :: "string \<Rightarrow> string \<Rightarrow> string list \<Rightarrow> string list \<Rightarrow> string list" where
  \<comment> \<open>the inner loop over the \<open>possibilities\<close> of one ambiguous symbol\<close>
  "appendReplacements normalized leet [] possibleStrings = possibleStrings"
| "appendReplacements normalized leet (replacement # rest) possibleStrings =
     appendReplacements normalized leet rest
       (possibleStrings @ [ReplaceAll normalized leet replacement])"

fun expandAmbiguous :: "(string \<times> string list) list \<Rightarrow> string \<Rightarrow> string list \<Rightarrow> string list" where
  \<comment> \<open>the loop over \<open>ambiguousLeetMap\<close>; \<open>normalized\<close> does not change in it\<close>
  "expandAmbiguous [] normalized possibleStrings = possibleStrings"
| "expandAmbiguous ((leet, possibilities) # rest) normalized possibleStrings =
     (if Contains normalized leet
      then expandAmbiguous rest normalized
             (appendReplacements normalized leet possibilities possibleStrings)
      else expandAmbiguous rest normalized possibleStrings)"

definition leetStep3 :: "unicode_lib \<Rightarrow> range_order \<Rightarrow> string \<Rightarrow> string" where
  \<comment> \<open>lines 155 to 166: lower-casing, then the multi-character table, then the
      single-character table\<close>
  "leetStep3 L R message =
     applyTable (single_order R) (applyTable (multi_order R) (ToLower L message))"

definition normalizeLeetSpeak :: "unicode_lib \<Rightarrow> range_order \<Rightarrow> string \<Rightarrow> string" where
  "normalizeLeetSpeak L R message =
     (let normalized = leetStep3 L R message;
          possibleStrings = expandAmbiguous (ambiguous_order R) normalized []
      in if length possibleStrings > 0 then Join possibleStrings '' '' else normalized)"

section \<open>The whitespace regular expressions\<close>

text \<open>
  Go's \<^verbatim>\<open>regexp\<close> reads its input rune by rune. The class \<^verbatim>\<open>[\s\p{Zs}]\<close> holds the five
  ASCII characters of \<^verbatim>\<open>\s\<close> (tab, line feed, form feed, carriage return, space) and
  the space separators U+00A0, U+1680, U+2000 to U+200A, U+202F, U+205F and U+3000;
  \<open>spaceRunes\<close> lists their UTF-8 encodings. Every encoding starts with a byte that is
  never a continuation byte, so an encoding can only stand where a rune starts, and
  the model may step over all other input one byte at a time: a \<open>piece\<close> is a rune of
  the class, or one byte of anything else.
\<close>

definition spaceRunes :: "string list" where
  "spaceRunes =
     [[CHR 0x09], [CHR 0x0A], [CHR 0x0C], [CHR 0x0D], [CHR 0x20],
      [CHR 0xC2, CHR 0xA0], [CHR 0xE1, CHR 0x9A, CHR 0x80],
      [CHR 0xE2, CHR 0x80, CHR 0x80], [CHR 0xE2, CHR 0x80, CHR 0x81],
      [CHR 0xE2, CHR 0x80, CHR 0x82], [CHR 0xE2, CHR 0x80, CHR 0x83],
      [CHR 0xE2, CHR 0x80, CHR 0x84], [CHR 0xE2, CHR 0x80, CHR 0x85],
      [CHR 0xE2, CHR 0x80, CHR 0x86], [CHR 0xE2, CHR 0x80, CHR 0x87],
      [CHR 0xE2, CHR 0x80, CHR 0x88], [CHR 0xE2, CHR 0x80, CHR 0x89],
      [CHR 0xE2, CHR 0x80, CHR 0x8A], [CHR 0xE2, CHR 0x80, CHR 0xAF],
      [CHR 0xE2, CHR 0x81, CHR 0x9F], [CHR 0xE3, CHR 0x80, CHR 0x80]]"

definition spaceRuneAt :: "string \<Rightarrow> string option" where
  \<comment> \<open>the rune of the class encoded at the head of \<open>s\<close>, if there is one\<close>
  "spaceRuneAt s = find (\<lambda>w. prefix w s) spaceRunes"

datatype piece = Space string | Byte char

fun isSpace :: "piece \<Rightarrow> bool" where
  "isSpace (Space w) = True"
| "isSpace (Byte c) = False"

fun bytesOf :: "piece \<Rightarrow> string" where
  "bytesOf (Space w) = w"
| "bytesOf (Byte c) = [c]"

definition unpieces :: "piece list \<Rightarrow> string" where
  "unpieces ps = concat (map bytesOf ps)"

fun pieces :: "string \<Rightarrow> piece list" where
  "pieces [] = []"
| "pieces (c # s) =
     (case spaceRuneAt (c # s) of
        Some w \<Rightarrow> Space w # pieces (drop (length w - 1) s)
      | None \<Rightarrow> Byte c # pieces s)"

function (sequential) leadCloseScan :: "bool \<Rightarrow> piece list \<Rightarrow> piece list" where
  \<comment> \<open>What \<^verbatim>\<open>ReplaceAllString(message, "")\<close> keeps for \<^verbatim>\<open>^[\s\p{Zs}]+|[\s\p{Zs}]+$\<close>. The
      matches are found from the left. At a position, \<^verbatim>\<open>^[\s\p{Zs}]+\<close> matches the
      longest run of the class if the position is the start of the text, and
      \<^verbatim>\<open>[\s\p{Zs}]+$\<close> matches if the run that starts there reaches the end of the
      text. A match is deleted and the scan goes on behind it.\<close>
  "leadCloseScan atStart [] = []"
| "leadCloseScan atStart (p # ps) =
     (if isSpace p \<and> (atStart \<or> list_all isSpace ps)
      then leadCloseScan False (dropWhile isSpace ps)
      else p # leadCloseScan False ps)"
  by pat_completeness auto
termination
  by (relation "measure (\<lambda>(atStart, ps). length ps)")
    (auto simp: less_Suc_eq_le length_dropWhile_le)

function (sequential) insideScan :: "piece list \<Rightarrow> piece list" where
  \<comment> \<open>What \<^verbatim>\<open>ReplaceAllString(message, "")\<close> keeps for \<^verbatim>\<open>[\s\p{Zs}]{2,}\<close>: a longest run
      of the class with two runes or more is deleted, a single rune is kept.\<close>
  "insideScan [] = []"
| "insideScan (p # ps) =
     (if isSpace p \<and> 1 \<le> length (takeWhile isSpace ps)
      then insideScan (dropWhile isSpace ps)
      else p # insideScan ps)"
  by pat_completeness auto
termination
  by (relation "measure length") (auto simp: less_Suc_eq_le length_dropWhile_le)

definition regexLeadCloseWhitepace :: "string \<Rightarrow> string" where
  "regexLeadCloseWhitepace message = unpieces (leadCloseScan True (pieces message))"

definition regexInsideWhitespace :: "string \<Rightarrow> string" where
  "regexInsideWhitespace message = unpieces (insideScan (pieces message))"

section \<open>The filter\<close>

text \<open>
  \<open>BadWords\<close> is a Go map used as a set; \<open>None\<close> is the nil map. Its keys are listed in
  the order in which the \<^verbatim>\<open>range\<close> of this call of \<^verbatim>\<open>Check\<close> meets them; the keys of
  a map are distinct. The mutex is left out: one call is modelled.
\<close>

record SwearFilter =
  DisableNormalize :: bool
  DisableSpacedTab :: bool
  DisableMultiWhitespaceStripping :: bool
  DisableZeroWidthStripping :: bool
  EnableSpacedBypass :: bool
  DisableLeetSpeak :: bool
  BadWords :: "string list option"

definition NewSwearFilter :: "bool \<Rightarrow> string list \<Rightarrow> SwearFilter" where
  \<comment> \<open>every other field has Go's zero value; adding a word twice leaves one key\<close>
  "NewSwearFilter enableSpacedBypass uhohwords =
     \<lparr>DisableNormalize = False, DisableSpacedTab = False,
      DisableMultiWhitespaceStripping = False, DisableZeroWidthStripping = False,
      EnableSpacedBypass = enableSpacedBypass, DisableLeetSpeak = False,
      BadWords = Some (remdups uhohwords)\<rparr>"

definition stripWhitespace :: "SwearFilter \<Rightarrow> string \<Rightarrow> string" where
  \<comment> \<open>lines 117 to 123\<close>
  "stripWhitespace flt message =
     (if \<not> DisableMultiWhitespaceStripping flt
      then regexInsideWhitespace (regexLeadCloseWhitepace message)
      else message)"

definition sanitize :: "SwearFilter \<Rightarrow> string \<Rightarrow> string" where
  \<comment> \<open>lines 107 to 123: tabs, zero-width spaces (U+200B), whitespace\<close>
  "sanitize flt message =
     (let message = (if \<not> DisableSpacedTab flt
                     then ReplaceAll message [CHR 0x09] '' '' else message);
          message = (if \<not> DisableZeroWidthStripping flt
                     then ReplaceAll message [CHR 0xE2, CHR 0x80, CHR 0x8B] [] else message)
      in stripWhitespace flt message)"

definition leetStage :: "unicode_lib \<Rightarrow> range_order \<Rightarrow> SwearFilter \<Rightarrow> string \<Rightarrow> string" where
  \<comment> \<open>lines 90 to 94\<close>
  "leetStage L R flt msg =
     (let message = ToLower L msg
      in if \<not> DisableLeetSpeak flt then normalizeLeetSpeak L R message else message)"

definition normalizeStage :: "unicode_lib \<Rightarrow> SwearFilter \<Rightarrow> string \<Rightarrow> error + string" where
  \<comment> \<open>lines 96 to 106\<close>
  "normalizeStage L flt message =
     (if \<not> DisableNormalize flt then normalizeTransform L message else Inr message)"

definition normalizedText :: "unicode_lib \<Rightarrow> range_order \<Rightarrow> SwearFilter \<Rightarrow> string \<Rightarrow> error + string" where
  \<comment> \<open>lines 90 to 123: the value of \<open>message\<close> when the loop over the words starts\<close>
  "normalizedText L R flt msg =
     (case normalizeStage L flt (leetStage L R flt msg) of
        Inl err \<Rightarrow> Inl err
      | Inr message \<Rightarrow> Inr (sanitize flt message))"

fun wordLoop :: "bool \<Rightarrow> string \<Rightarrow> string list \<Rightarrow> string list \<times> bool \<Rightarrow> string list \<times> bool" where
  \<comment> \<open>lines 127 to 144; the state is \<open>(trippedWords, checkSpace)\<close>\<close>
  "wordLoop bypass message [] st = st"
| "wordLoop bypass message (swear # rest) (trippedWords, checkSpace) =
     (if swear = '' '' then wordLoop bypass message rest (trippedWords, True)
      else if Contains message swear
      then wordLoop bypass message rest (trippedWords @ [swear], checkSpace)
      else if bypass \<and> Contains (ReplaceAll message '' '' []) swear
      then wordLoop bypass message rest (trippedWords @ [swear], checkSpace)
      else wordLoop bypass message rest (trippedWords, checkSpace))"

definition matchWords :: "SwearFilter \<Rightarrow> string list \<Rightarrow> string \<Rightarrow> string list" where
  \<comment> \<open>lines 125 to 150\<close>
  "matchWords flt badWords message =
     (case wordLoop (EnableSpacedBypass flt) message badWords ([], False) of
        (trippedWords, checkSpace) \<Rightarrow>
          if checkSpace \<and> message = [] then trippedWords @ ['' ''] else trippedWords)"

definition Check :: "unicode_lib \<Rightarrow> range_order \<Rightarrow> SwearFilter \<Rightarrow> string \<Rightarrow> error + string list" where
  \<comment> \<open>\<open>Inl err\<close> is the return \<^verbatim>\<open>nil, err\<close>; \<open>Inr ws\<close> is \<^verbatim>\<open>ws, nil\<close>, and a nil slice is
      the empty list\<close>
  "Check L R flt msg =
     (case BadWords flt of
        None \<Rightarrow> Inr []
      | Some badWords \<Rightarrow>
          if length badWords = 0 then Inr []
          else (case normalizedText L R flt msg of
                  Inl err \<Rightarrow> Inl err
                | Inr message \<Rightarrow> Inr (matchWords flt badWords message)))"

definition trips :: "bool \<Rightarrow> string \<Rightarrow> string \<Rightarrow> bool" where
  \<comment> \<open>the condition under which one pass of the loop appends \<open>swear\<close>\<close>
  "trips bypass message swear \<longleftrightarrow>
     swear \<noteq> '' '' \<and>
     (Contains message swear \<or> bypass \<and> Contains (ReplaceAll message '' '' []) swear)"

definition copiesOf :: "string \<Rightarrow> string \<times> string list \<Rightarrow> string list" where
  \<comment> \<open>the copies of \<open>s\<close> that one entry of \<open>ambiguousLeetMap\<close> contributes\<close>
  "copiesOf s e = map (ReplaceAll s (fst e)) (snd e)"

section \<open>Well-formed input\<close>

text \<open>
  \<^verbatim>\<open>utf8.ValidString\<close>: the byte sequences Go accepts as UTF-8, one to four bytes for a
  code point, without overlong forms, surrogates or values above U+10FFFF.
\<close>

definition inRange :: "nat \<Rightarrow> nat \<Rightarrow> char \<Rightarrow> bool" where
  "inRange lo hi c \<longleftrightarrow> lo \<le> of_char c \<and> (of_char c :: nat) \<le> hi"

fun ValidString :: "string \<Rightarrow> bool" where
  "ValidString [] = True"
| "ValidString (c # s) =
     (if inRange 0x00 0x7F c then ValidString s
      else (case s of
          [] \<Rightarrow> False
        | c1 # s1 \<Rightarrow>
            if inRange 0xC2 0xDF c then inRange 0x80 0xBF c1 \<and> ValidString s1
            else (case s1 of
                [] \<Rightarrow> False
              | c2 # s2 \<Rightarrow>
                  if inRange 0xE0 0xE0 c \<and> inRange 0xA0 0xBF c1 \<or>
                     inRange 0xE1 0xEC c \<and> inRange 0x80 0xBF c1 \<or>
                     inRange 0xED 0xED c \<and> inRange 0x80 0x9F c1 \<or>
                     inRange 0xEE 0xEF c \<and> inRange 0x80 0xBF c1
                  then inRange 0x80 0xBF c2 \<and> ValidString s2
                  else (case s2 of
                      [] \<Rightarrow> False
                    | c3 # s3 \<Rightarrow>
                        (inRange 0xF0 0xF0 c \<and> inRange 0x90 0xBF c1 \<or>
                         inRange 0xF1 0xF3 c \<and> inRange 0x80 0xBF c1 \<or>
                         inRange 0xF4 0xF4 c \<and> inRange 0x80 0x8F c1) \<and>
                        inRange 0x80 0xBF c2 \<and> inRange 0x80 0xBF c3 \<and>
                        ValidString s3))))"

section \<open>Library values for the examples\<close>

text \<open>
  \<open>sample_lib\<close> gives the values of the library at the inputs outside ASCII that the
  examples of this theory use, and is not meant to agree with it anywhere else:
  \<^item> dotless i (U+0131, bytes C4 B1) is a lower-case letter whose upper case is the ASCII
    letter I; it has no decomposition, so the chain copies it;
  \<^item> the combining acute accent (U+0301, bytes CC 81) is its own lower case and is a
    nonspacing mark (category Mn), so the chain removes it: alone it leaves nothing,
    and after the letter e and before a tab it leaves the letter and the tab;
  \<^item> the musical symbol half note (U+1D15E, bytes F0 9D 85 9E) has no case. Its canonical
    decomposition is U+1D157 U+1D165, it is excluded from composition, and U+1D165 is a
    spacing mark (category Mc), which the chain keeps: the folded text has eight bytes
    and does not fit a destination of four, so the chain returns \<^verbatim>\<open>ErrShortDst\<close>;
  \<^item> the musical symbol combining stem (U+1D165, bytes F0 9D 85 A5) has no case and no
    decomposition and is a spacing mark (category Mc), which the chain keeps: alone it
    comes back as it is (the last case of \<open>chain_Transform\<close> below).
\<close>

definition sample_lib :: unicode_lib where
  "sample_lib =
     \<lparr>map_ToLower = (\<lambda>s. s),
      map_ToUpper = (\<lambda>s. if s = [CHR 0xC4, CHR 0xB1] then ''I'' else s),
      chain_Transform = (\<lambda>n s.
         if s = [CHR 0xCC, CHR 0x81] then Inr []
         else if s = [CHR ''e'', CHR 0xCC, CHR 0x81, CHR 0x09] then Inr [CHR ''e'', CHR 0x09]
         else if s = [CHR 0xF0, CHR 0x9D, CHR 0x85, CHR 0x9E] \<and> n < 8 then Inl ErrShortDst
         else Inr s)\<rparr>"

section \<open>Evaluation and basic facts\<close>

lemmas byte_eval = isASCII_def lowerByte_def upperByte_def char_of_def bit_Suc_0_iff

lemmas stage_defs = Check_def NewSwearFilter_def normalizedText_def normalizeStage_def
  leetStage_def normalizeTransform_def sanitize_def stripWhitespace_def
  regexInsideWhitespace_def regexLeadCloseWhitepace_def spaceRuneAt_def spaceRunes_def
  unpieces_def matchWords_def ToLower_def byte_eval

lemma valid_source_order: "valid_order source_order"
  by (simp add: valid_order_def source_order_def multiCharLeet_def leetChars_def
      ambiguousLeetMap_def)

lemma Contains_iff: "Contains s sub \<longleftrightarrow> (\<exists>a b. s = a @ sub @ b)"
proof (induction s)
  case Nil
  then show ?case by auto
next
  case (Cons c s)
  show ?case
  proof
    assume "Contains (c # s) sub"
    then consider "prefix sub (c # s)" | "Contains s sub" by auto
    then show "\<exists>a b. c # s = a @ sub @ b"
    proof cases
      case 1
      then obtain b where "c # s = sub @ b" by (auto simp: prefix_def)
      then have "c # s = [] @ sub @ b" by simp
      then show ?thesis by blast
    next
      case 2
      with Cons.IH obtain a b where "s = a @ sub @ b" by blast
      then have "c # s = (c # a) @ sub @ b" by simp
      then show ?thesis by blast
    qed
  next
    assume "\<exists>a b. c # s = a @ sub @ b"
    then obtain a b where ab: "c # s = a @ sub @ b" by blast
    show "Contains (c # s) sub"
    proof (cases a)
      case Nil
      with ab have "prefix sub (c # s)" by (simp add: prefix_def)
      then show ?thesis by simp
    next
      case (Cons x a')
      with ab have "s = a' @ sub @ b" by simp
      with Cons.IH have "Contains s sub" by blast
      then show ?thesis by simp
    qed
  qed
qed

lemma set_ReplaceAll: "set (ReplaceAll s old new) \<subseteq> set s \<union> set new"
proof (induction s old new rule: ReplaceAll.induct)
  case (1 old new)
  then show ?case by simp
next
  case (2 c s old new)
  show ?case
  proof (cases "old \<noteq> [] \<and> prefix old (c # s)")
    case True
    have "set (drop (length old - 1) s) \<subseteq> set s" by (rule set_drop_subset)
    with 2(1)[OF True] True show ?thesis by auto
  next
    case False
    with 2(2)[OF False] show ?thesis by auto
  qed
qed

lemma wordLoop_eq:
  "wordLoop bypass message ws (tw, cs) =
     (tw @ filter (trips bypass message) ws, cs \<or> '' '' \<in> set ws)"
  by (induction ws arbitrary: tw cs) (auto simp: trips_def)

lemma matchWords_eq:
  "matchWords flt ws message =
     filter (trips (EnableSpacedBypass flt) message) ws @
     (if '' '' \<in> set ws \<and> message = [] then ['' ''] else [])"
  by (simp add: matchWords_def wordLoop_eq)

lemma Check_Some:
  "BadWords flt = Some ws \<Longrightarrow> ws \<noteq> [] \<Longrightarrow> normalizedText L R flt msg = Inr m \<Longrightarrow>
   Check L R flt msg = Inr (matchWords flt ws m)"
  by (simp add: Check_def)

section \<open>The loops of the leet normalizer\<close>

lemma appendReplacements_eq:
  "appendReplacements s leet cs acc = acc @ map (ReplaceAll s leet) cs"
  by (induction cs arbitrary: acc) simp_all

lemma expandAmbiguous_eq:
  "expandAmbiguous T s acc =
     acc @ concat (map (copiesOf s) (filter (\<lambda>e. Contains s (fst e)) T))"
  by (induction T arbitrary: acc) (auto simp: appendReplacements_eq copiesOf_def)

lemma applyTable_fixed:
  "\<forall>x \<in> set T. ReplaceAll s (fst x) (snd x) = s \<Longrightarrow> applyTable T s = s"
  by (induction T) auto

lemma applyTable_once:
  assumes "e \<in> set T" and "ReplaceAll s (fst e) (snd e) = s'"
    and "\<forall>x \<in> set T. x \<noteq> e \<longrightarrow> ReplaceAll s (fst x) (snd x) = s"
    and "\<forall>x \<in> set T. ReplaceAll s' (fst x) (snd x) = s'"
  shows "applyTable T s = s'"
  using assms
proof (induction T)
  case Nil
  then show ?case by simp
next
  case (Cons x T)
  obtain leet normal where x: "x = (leet, normal)" by (cases x)
  show ?case
  proof (cases "x = e")
    case True
    with Cons.prems x have "ReplaceAll s leet normal = s'" by auto
    moreover from Cons.prems have "applyTable T s' = s'" by (intro applyTable_fixed) simp
    ultimately show ?thesis using x by simp
  next
    case False
    with Cons.prems x have "ReplaceAll s leet normal = s" by auto
    moreover from False Cons.prems have "e \<in> set T" by auto
    ultimately show ?thesis using Cons x by simp
  qed
qed

lemma filter_single:
  "distinct xs \<Longrightarrow> e \<in> set xs \<Longrightarrow> \<forall>x \<in> set xs. P x \<longleftrightarrow> x = e \<Longrightarrow> filter P xs = [e]"
proof (induction xs)
  case Nil
  then show ?case by simp
next
  case (Cons x xs)
  show ?case
  proof (cases "x = e")
    case True
    with Cons.prems have "\<forall>y \<in> set xs. \<not> P y" by auto
    then have "filter P xs = []" by (simp add: filter_empty_conv)
    with True Cons.prems show ?thesis by simp
  next
    case False
    with Cons show ?thesis by auto
  qed
qed

lemma normalizeLeetSpeak_plain:
  assumes "expandAmbiguous (ambiguous_order R) (leetStep3 L R s) [] = []"
  shows "normalizeLeetSpeak L R s = leetStep3 L R s"
  using assms by (simp add: normalizeLeetSpeak_def Let_def)

lemma expandAmbiguous_none:
  "\<forall>e \<in> set T. \<not> Contains s (fst e) \<Longrightarrow> expandAmbiguous T s [] = []"
  by (simp add: expandAmbiguous_eq filter_empty_conv)

lemma expandAmbiguous_single:
  assumes "distinct T" and "e \<in> set T" and "\<forall>x \<in> set T. Contains s (fst x) \<longleftrightarrow> x = e"
  shows "expandAmbiguous T s [] = copiesOf s e"
  using filter_single [OF assms] by (simp add: expandAmbiguous_eq)

section \<open>ASCII messages stay ASCII\<close>

lemma of_char_lower: "isASCII c \<Longrightarrow> isASCII (lowerByte c)"
  by (simp add: isASCII_def lowerByte_def Let_def)

lemma ascii_ReplaceAll:
  "list_all isASCII s \<Longrightarrow> list_all isASCII new \<Longrightarrow> list_all isASCII (ReplaceAll s old new)"
  using set_ReplaceAll [of s old new] by (auto simp: list_all_iff)

lemma ascii_applyTable:
  "\<forall>(leet, normal) \<in> set T. list_all isASCII normal \<Longrightarrow> list_all isASCII s \<Longrightarrow>
   list_all isASCII (applyTable T s)"
proof (induction T arbitrary: s)
  case Nil
  then show ?case by simp
next
  case (Cons e T)
  obtain leet normal where e: "e = (leet, normal)" by (cases e)
  with Cons.prems have "list_all isASCII (ReplaceAll s leet normal)"
    by (simp add: ascii_ReplaceAll)
  with Cons e show ?case by simp
qed

lemma ascii_expandAmbiguous:
  assumes "\<forall>(leet, cs) \<in> set T. \<forall>r \<in> set cs. list_all isASCII r" and "list_all isASCII s"
  shows "\<forall>x \<in> set (expandAmbiguous T s []). list_all isASCII x"
proof
  fix x assume "x \<in> set (expandAmbiguous T s [])"
  then obtain leet cs r where "(leet, cs) \<in> set T" "r \<in> set cs" "x = ReplaceAll s leet r"
    by (auto simp: expandAmbiguous_eq copiesOf_def)
  with assms show "list_all isASCII x" by (auto simp: ascii_ReplaceAll)
qed

lemma ascii_Join:
  "\<forall>x \<in> set xs. list_all isASCII x \<Longrightarrow> list_all isASCII sep \<Longrightarrow> list_all isASCII (Join xs sep)"
  by (induction xs sep rule: Join.induct) auto

lemma ascii_ToLower: "list_all isASCII s \<Longrightarrow> list_all isASCII (ToLower L s)"
  by (auto simp: ToLower_def list_all_iff of_char_lower)

lemma ascii_tables:
  "\<forall>(leet, normal) \<in> set multiCharLeet. list_all isASCII normal"
  "\<forall>(leet, normal) \<in> set leetChars. list_all isASCII normal"
  "\<forall>(leet, cs) \<in> set ambiguousLeetMap. \<forall>r \<in> set cs. list_all isASCII r"
  by (simp_all add: multiCharLeet_def leetChars_def ambiguousLeetMap_def isASCII_def)

lemma ascii_normalizeLeetSpeak:
  assumes "valid_order R" and "list_all isASCII s"
  shows "list_all isASCII (normalizeLeetSpeak L R s)"
proof -
  let ?n = "leetStep3 L R s"
  from assms have n: "list_all isASCII ?n"
    unfolding leetStep3_def valid_order_def
    by (intro ascii_applyTable) (simp_all add: ascii_tables ascii_ToLower)
  have "\<forall>x \<in> set (expandAmbiguous (ambiguous_order R) ?n []). list_all isASCII x"
    using assms(1) n unfolding valid_order_def
    by (intro ascii_expandAmbiguous) (simp_all add: ascii_tables)
  then have "list_all isASCII (Join (expandAmbiguous (ambiguous_order R) ?n []) '' '')"
    by (rule ascii_Join) (simp add: isASCII_def)
  with n show ?thesis by (simp add: normalizeLeetSpeak_def Let_def)
qed

lemma ascii_leetStage:
  "valid_order R \<Longrightarrow> list_all isASCII msg \<Longrightarrow> list_all isASCII (leetStage L R flt msg)"
  by (simp add: leetStage_def Let_def ascii_ToLower ascii_normalizeLeetSpeak)

section \<open>Where an error comes from\<close>

lemma normalizeStage_Inl:
  "normalizeStage L flt m = Inl err \<longleftrightarrow>
     \<not> DisableNormalize flt \<and> \<not> list_all isASCII m \<and> chain_Transform L (length m) m = Inl err"
  by (auto simp: normalizeStage_def normalizeTransform_def split: sum.splits)

lemma normalizedText_Inl:
  "normalizedText L R flt msg = Inl err \<longleftrightarrow>
     normalizeStage L flt (leetStage L R flt msg) = Inl err"
  by (auto simp: normalizedText_def split: sum.splits)

lemma Check_Inl:
  "Check L R flt msg = Inl err \<longleftrightarrow>
     (\<exists>ws. BadWords flt = Some ws \<and> ws \<noteq> []) \<and> normalizedText L R flt msg = Inl err"
  by (auto simp: Check_def split: option.splits sum.splits)

text \<open>
  \<open>Check\<close> fails exactly when there are banned words, folding is enabled and the chain
  call on the lower-cased, leet-normalized message fails; a message of ASCII bytes never
  reaches the chain; and when \<open>Check\<close> does not fail it returns banned words only.
\<close>

lemma Check_error_from_chain:
  "(Check L R flt msg = Inl err \<longleftrightarrow>
      (\<exists>ws. BadWords flt = Some ws \<and> ws \<noteq> []) \<and> \<not> DisableNormalize flt \<and>
      \<not> list_all isASCII (leetStage L R flt msg) \<and>
      chain_Transform L (length (leetStage L R flt msg)) (leetStage L R flt msg) = Inl err) \<and>
   (valid_order R \<and> list_all isASCII msg \<longrightarrow> (\<exists>tripped. Check L R flt msg = Inr tripped)) \<and>
   ((\<forall>e. Check L R flt msg \<noteq> Inl e) \<longrightarrow>
      (\<exists>tripped. Check L R flt msg = Inr tripped \<and>
         (\<forall>ws. BadWords flt = Some ws \<longrightarrow> set tripped \<subseteq> set ws)))"
proof (intro conjI impI)
  show "Check L R flt msg = Inl err \<longleftrightarrow>
      (\<exists>ws. BadWords flt = Some ws \<and> ws \<noteq> []) \<and> \<not> DisableNormalize flt \<and>
      \<not> list_all isASCII (leetStage L R flt msg) \<and>
      chain_Transform L (length (leetStage L R flt msg)) (leetStage L R flt msg) = Inl err"
    by (simp add: Check_Inl normalizedText_Inl normalizeStage_Inl)
next
  assume a: "valid_order R \<and> list_all isASCII msg"
  then have "list_all isASCII (leetStage L R flt msg)" by (simp add: ascii_leetStage)
  then have "\<forall>e. Check L R flt msg \<noteq> Inl e"
    by (simp add: Check_Inl normalizedText_Inl normalizeStage_Inl)
  then show "\<exists>tripped. Check L R flt msg = Inr tripped"
    by (cases "Check L R flt msg") auto
next
  assume ne: "\<forall>e. Check L R flt msg \<noteq> Inl e"
  then obtain tripped where t: "Check L R flt msg = Inr tripped"
    by (cases "Check L R flt msg") auto
  have "\<forall>ws. BadWords flt = Some ws \<longrightarrow> set tripped \<subseteq> set ws"
  proof (intro allI impI)
    fix ws assume ws: "BadWords flt = Some ws"
    show "set tripped \<subseteq> set ws"
    proof (cases "ws = []")
      case True
      with ws t show ?thesis by (simp add: Check_def)
    next
      case False
      with ws t obtain m where "tripped = matchWords flt ws m"
        by (auto simp: Check_def split: sum.splits)
      then show ?thesis by (auto simp: matchWords_eq)
    qed
  qed
  with t show "\<exists>tripped. Check L R flt msg = Inr tripped \<and>
         (\<forall>ws. BadWords flt = Some ws \<longrightarrow> set tripped \<subseteq> set ws)" by blast
qed

section \<open>Pieces of a message\<close>

lemma spaceRunes_nonempty: "w \<in> set spaceRunes \<Longrightarrow> w \<noteq> []"
  by (auto simp: spaceRunes_def)

lemma spaceRuneAt_Some:
  "spaceRuneAt s = Some w \<Longrightarrow> w \<in> set spaceRunes \<and> prefix w s \<and> w \<noteq> []"
  unfolding spaceRuneAt_def
  by (auto simp: find_Some_iff spaceRunes_nonempty)

lemma spaceRuneAt_drop:
  assumes "spaceRuneAt (c # s) = Some w"
  shows "c # s = w @ drop (length w - 1) s"
proof -
  from spaceRuneAt_Some [OF assms] obtain t where t: "c # s = w @ t" and "w \<noteq> []"
    by (auto simp: prefix_def)
  then obtain w' where w: "w = c # w'" by (cases w) auto
  with t have "s = w' @ t" by simp
  with w t show ?thesis by simp
qed

lemma unpieces_simps [simp]:
  "unpieces [] = []"
  "unpieces (p # ps) = bytesOf p @ unpieces ps"
  "unpieces (ps @ qs) = unpieces ps @ unpieces qs"
  by (simp_all add: unpieces_def)

lemma unpieces_pieces: "unpieces (pieces s) = s"
proof (induction s rule: pieces.induct)
  case 1
  then show ?case by simp
next
  case (2 c s)
  show ?case
  proof (cases "spaceRuneAt (c # s)")
    case None
    with 2(1) [OF None] show ?thesis by simp
  next
    case (Some w)
    then have "pieces (c # s) = Space w # pieces (drop (length w - 1) s)" by simp
    then have "unpieces (pieces (c # s)) = w @ drop (length w - 1) s"
      using 2(2) [OF Some] by simp
    also have "\<dots> = c # s" by (rule spaceRuneAt_drop [OF Some, symmetric])
    finally show ?thesis .
  qed
qed

lemma spaceRuneAt_append_None: "spaceRuneAt (s @ t) = None \<Longrightarrow> spaceRuneAt s = None"
  unfolding spaceRuneAt_def by (auto simp: find_None_iff)

lemma find_mono_Some:
  "find P xs = Some x \<Longrightarrow> Q x \<Longrightarrow> (\<And>y. Q y \<Longrightarrow> P y) \<Longrightarrow> find Q xs = Some x"
  by (induction xs) (auto split: if_splits)

lemma spaceRuneAt_append_Some:
  "spaceRuneAt (s @ t) = Some w \<Longrightarrow> prefix w s \<Longrightarrow> spaceRuneAt s = Some w"
  unfolding spaceRuneAt_def by (erule find_mono_Some) auto

lemma pieces_Space_step:
  "spaceRuneAt (w @ s) = Some w \<Longrightarrow> pieces (w @ s) = Space w # pieces s"
proof -
  assume a: "spaceRuneAt (w @ s) = Some w"
  then have "w \<noteq> []" by (auto dest: spaceRuneAt_Some)
  then obtain c w' where w: "w = c # w'" by (cases w) auto
  with a show ?thesis by simp
qed

lemma pieces_Byte_step:
  "spaceRuneAt (c # s) = None \<Longrightarrow> pieces (c # s) = Byte c # pieces s"
  by simp

lemma pieces_head:
  assumes "pieces s = p # X"
  shows "s = bytesOf p @ unpieces X \<and> pieces (unpieces X) = X \<and>
         (case p of Space w \<Rightarrow> spaceRuneAt s = Some w | Byte c \<Rightarrow> spaceRuneAt s = None)"
proof (cases s)
  case Nil
  with assms show ?thesis by simp
next
  case (Cons c s')
  show ?thesis
  proof (cases "spaceRuneAt (c # s')")
    case None
    with assms Cons have p: "p = Byte c" and X: "X = pieces s'" by auto
    with None Cons show ?thesis by (simp add: unpieces_pieces)
  next
    case (Some w)
    with assms Cons have p: "p = Space w" and X: "X = pieces (drop (length w - 1) s')" by auto
    have "s = w @ drop (length w - 1) s'" using spaceRuneAt_drop [OF Some] Cons by simp
    moreover have "spaceRuneAt s = Some w" using Some Cons by simp
    ultimately show ?thesis using p X by (simp add: unpieces_pieces)
  qed
qed

lemma canonical_suffix: "pieces s = X @ Y \<Longrightarrow> pieces (unpieces Y) = Y"
proof (induction X arbitrary: s)
  case Nil
  then show ?case by (metis append_Nil unpieces_pieces)
next
  case (Cons p X)
  then have "pieces s = p # (X @ Y)" by simp
  from pieces_head [OF this] have "pieces (unpieces (X @ Y)) = X @ Y" by simp
  then show ?case by (rule Cons.IH)
qed

lemma canonical_prefix: "pieces s = X @ Y \<Longrightarrow> pieces (unpieces X) = X"
proof (induction X arbitrary: s)
  case Nil
  then show ?case by simp
next
  case (Cons p X)
  then have ps: "pieces s = p # (X @ Y)" by simp
  from pieces_head [OF ps] have s: "s = bytesOf p @ unpieces (X @ Y)"
    and c: "pieces (unpieces (X @ Y)) = X @ Y"
    and h: "case p of Space w \<Rightarrow> spaceRuneAt s = Some w | Byte c \<Rightarrow> spaceRuneAt s = None"
    by simp_all
  from c have IH: "pieces (unpieces X) = X" by (rule Cons.IH)
  show ?case
  proof (cases p)
    case (Space w)
    with h s have "spaceRuneAt ((w @ unpieces X) @ unpieces Y) = Some w" by simp
    then have "spaceRuneAt (w @ unpieces X) = Some w"
      by (rule spaceRuneAt_append_Some) simp
    then show ?thesis using Space IH by (simp add: pieces_Space_step)
  next
    case (Byte c)
    with h s have "spaceRuneAt ((c # unpieces X) @ unpieces Y) = None" by simp
    then have "spaceRuneAt (c # unpieces X) = None" by (rule spaceRuneAt_append_None)
    then show ?thesis using Byte IH by simp
  qed
qed

lemma canonical_middle: "pieces s = X @ Y @ Z \<Longrightarrow> pieces (unpieces Y) = Y"
  by (metis canonical_prefix canonical_suffix)

section \<open>What the two scans keep\<close>

lemma dropWhile_all: "list_all P xs \<Longrightarrow> dropWhile P (xs @ ys) = dropWhile P ys"
  by (induction xs) auto

lemma takeWhile_all: "list_all P xs \<Longrightarrow> takeWhile P (xs @ ys) = xs @ takeWhile P ys"
  by (induction xs) auto

lemma dropWhile_nonspace_last:
  "xs \<noteq> [] \<Longrightarrow> \<not> P (last xs) \<Longrightarrow> dropWhile P (xs @ ys) = dropWhile P xs @ ys"
  by (induction xs) (auto split: if_splits)

lemma dropWhile_last:
  "xs \<noteq> [] \<Longrightarrow> \<not> P (last xs) \<Longrightarrow>
   dropWhile P xs \<noteq> [] \<and> last (dropWhile P xs) = last xs"
  by (induction xs) (auto split: if_splits)

lemma dropWhile_all_Nil: "list_all P xs \<Longrightarrow> dropWhile P xs = []"
  by (simp add: list_all_iff)

lemma leadCloseScan_tail:
  "list_all isSpace trail \<Longrightarrow> core = [] \<or> \<not> isSpace (last core) \<Longrightarrow>
   leadCloseScan False (core @ trail) = core"
proof (induction core)
  case Nil
  show ?case
  proof (cases trail)
    case Nil
    then show ?thesis by simp
  next
    case (Cons q qs)
    with Nil.prems(1) have "isSpace q" and "list_all isSpace qs" by simp_all
    with Cons show ?thesis by (simp add: dropWhile_all_Nil)
  qed
next
  case (Cons p core)
  show ?case
  proof (cases "core = []")
    case True
    with Cons.prems have "\<not> isSpace p" by simp
    moreover have "leadCloseScan False trail = []" using Cons.IH Cons.prems(1) True by simp
    ultimately show ?thesis using True by simp
  next
    case False
    with Cons.prems have l: "\<not> isSpace (last core)" by simp
    with False have "\<not> list_all isSpace core"
      by (auto simp: list_all_iff)
    moreover have "leadCloseScan False (core @ trail) = core" using Cons.IH Cons.prems(1) l by simp
    ultimately show ?thesis by simp
  qed
qed

lemma leadCloseScan_start:
  "rest = [] \<or> \<not> isSpace (hd rest) \<Longrightarrow> leadCloseScan True rest = leadCloseScan False rest"
  by (cases rest) auto

lemma leadCloseScan_lead:
  assumes "list_all isSpace lead" and "rest = [] \<or> \<not> isSpace (hd rest)"
  shows "leadCloseScan True (lead @ rest) = leadCloseScan False rest"
proof (cases lead)
  case Nil
  with assms(2) show ?thesis by (simp add: leadCloseScan_start)
next
  case (Cons p ps)
  with assms(1) have "isSpace p" "list_all isSpace ps" by simp_all
  then show ?thesis using Cons by (simp add: dropWhile_all) (cases rest; use assms(2) in auto)
qed

lemma leadCloseScan_trim:
  assumes "list_all isSpace lead" and "list_all isSpace trail"
    and "core = [] \<or> \<not> isSpace (hd core) \<and> \<not> isSpace (last core)"
  shows "leadCloseScan True (lead @ core @ trail) = core"
proof (cases "core = []")
  case True
  have "leadCloseScan True ((lead @ trail) @ []) = leadCloseScan False []"
    using assms(1,2) by (intro leadCloseScan_lead) simp_all
  with True show ?thesis by simp
next
  case False
  with assms(3) have h: "\<not> isSpace (hd core)" and l: "\<not> isSpace (last core)" by simp_all
  from False h have "core @ trail = [] \<or> \<not> isSpace (hd (core @ trail))" by simp
  with assms(1) have "leadCloseScan True (lead @ core @ trail) = leadCloseScan False (core @ trail)"
    by (rule leadCloseScan_lead)
  also have "\<dots> = core" using assms(2) l by (simp add: leadCloseScan_tail)
  finally show ?thesis .
qed

lemma insideScan_run:
  assumes "list_all isSpace run" and "2 \<le> length run" and "b = [] \<or> \<not> isSpace (hd b)"
  shows "insideScan (run @ b) = insideScan b"
proof -
  from assms(2) obtain r1 r2 rs where run: "run = r1 # r2 # rs"
    by (cases run; cases "tl run") auto
  with assms(1) have sp: "isSpace r1" "isSpace r2" "list_all isSpace rs" by simp_all
  have "dropWhile isSpace (rs @ b) = b"
  proof (cases b)
    case Nil
    then show ?thesis using sp(3) by (simp add: list_all_iff)
  next
    case (Cons q qs)
    with assms(3) have "\<not> isSpace q" by simp
    with Cons sp(3) show ?thesis by (simp add: dropWhile_all)
  qed
  with sp run show ?thesis by simp
qed

lemma insideScan_single:
  assumes "isSpace p" and "b = [] \<or> \<not> isSpace (hd b)"
  shows "insideScan (p # b) = p # insideScan b"
  using assms by (cases b) auto

lemma insideScan_split:
  assumes "a \<noteq> []" and "\<not> isSpace (last a)"
  shows "insideScan (a @ rest) = insideScan a @ insideScan rest"
  using assms
proof (induction a rule: length_induct)
  case (1 a)
  from 1(2) obtain p a' where a: "a = p # a'" by (cases a) auto
  show ?case
  proof (cases "a' = []")
    case True
    with a 1(3) have "\<not> isSpace p" by simp
    with a True show ?thesis by simp
  next
    case False
    with a 1(3) have l: "\<not> isSpace (last a')" by simp
    show ?thesis
    proof (cases "isSpace p \<and> 1 \<le> length (takeWhile isSpace a')")
      case True
      let ?d = "dropWhile isSpace a'"
      from False l have d: "?d \<noteq> []" "\<not> isSpace (last ?d)"
        using dropWhile_last [of a' isSpace] by simp_all
      have len: "length ?d < length a" using a length_dropWhile_le [of isSpace a'] by simp
      have dw: "dropWhile isSpace (a' @ rest) = ?d @ rest"
        using False l by (simp add: dropWhile_nonspace_last)
      have tw: "takeWhile isSpace (a' @ rest) = takeWhile isSpace a'"
        using False l by (induction a') (auto split: if_splits)
      have "insideScan (a @ rest) = insideScan (?d @ rest)"
        using True a dw tw by simp
      also have "\<dots> = insideScan ?d @ insideScan rest"
        using 1(1) [rule_format, OF len d] .
      also have "insideScan ?d = insideScan a" using True a by simp
      finally show ?thesis .
    next
      case no: False
      have tw: "takeWhile isSpace (a' @ rest) = takeWhile isSpace a'"
        using False l by (induction a') (auto split: if_splits)
      have "insideScan (a @ rest) = p # insideScan (a' @ rest)"
        using no a tw by auto
      also have "insideScan (a' @ rest) = insideScan a' @ insideScan rest"
      proof -
        have "length a' < length a" using a by simp
        from 1(1) [rule_format, OF this False l] show ?thesis .
      qed
      also have "p # insideScan a' @ insideScan rest = insideScan a @ insideScan rest"
        using no a by auto
      finally show ?thesis by simp
    qed
  qed
qed

lemma insideScan_nospace: "list_all (\<lambda>p. \<not> isSpace p) xs \<Longrightarrow> insideScan xs = xs"
  by (induction xs) auto

lemma trim_decomposition:
  "\<exists>lead core trail. ps = lead @ core @ trail \<and> list_all isSpace lead \<and> list_all isSpace trail \<and>
     (core = [] \<or> \<not> isSpace (hd core) \<and> \<not> isSpace (last core))"
proof -
  define lead where "lead = takeWhile isSpace ps"
  define rest where "rest = dropWhile isSpace ps"
  define trail where "trail = rev (takeWhile isSpace (rev rest))"
  define core where "core = rev (dropWhile isSpace (rev rest))"
  have 1: "ps = lead @ rest" by (simp add: lead_def rest_def)
  have "core @ trail = rev (takeWhile isSpace (rev rest) @ dropWhile isSpace (rev rest))"
    unfolding core_def trail_def by (simp only: rev_append)
  also have "\<dots> = rest" by (simp only: takeWhile_dropWhile_id rev_rev_ident)
  finally have 2: "rest = core @ trail" by simp
  have 3: "list_all isSpace lead"
    by (auto simp: lead_def list_all_iff dest: set_takeWhileD)
  have 4: "list_all isSpace trail"
    by (auto simp: trail_def list_all_iff dest: set_takeWhileD)
  have 5: "core = [] \<or> \<not> isSpace (hd core) \<and> \<not> isSpace (last core)"
  proof (cases "core = []")
    case True
    then show ?thesis by simp
  next
    case False
    then have ne: "dropWhile isSpace (rev rest) \<noteq> []" by (simp add: core_def)
    then have l: "\<not> isSpace (hd (dropWhile isSpace (rev rest)))" by (rule hd_dropWhile)
    have "last core = hd (dropWhile isSpace (rev rest))"
      using ne by (simp add: core_def last_rev)
    with l have lc: "\<not> isSpace (last core)" by simp
    from False 2 have "rest \<noteq> []" by auto
    then have "\<not> isSpace (hd rest)" unfolding rest_def by (rule hd_dropWhile)
    moreover from False 2 have "hd rest = hd core" by simp
    ultimately show ?thesis using lc by simp
  qed
  from 1 2 3 4 5 show ?thesis by auto
qed

section \<open>Bytes the tables remove\<close>

lemma ReplaceAll_removes_byte: "c \<notin> set new \<Longrightarrow> c \<notin> set (ReplaceAll s [c] new)"
  by (induction s "[c]" new rule: ReplaceAll.induct) auto

lemma applyTable_keeps_absent:
  "\<forall>x \<in> set T. c \<notin> set (snd x) \<Longrightarrow> c \<notin> set s \<Longrightarrow> c \<notin> set (applyTable T s)"
proof (induction T arbitrary: s)
  case Nil
  then show ?case by simp
next
  case (Cons x T)
  obtain leet normal where x: "x = (leet, normal)" by (cases x)
  with Cons.prems have "c \<notin> set (ReplaceAll s leet normal)"
    using set_ReplaceAll [of s leet normal] by auto
  with Cons x show ?case by simp
qed

lemma applyTable_removes_byte:
  "([c], new) \<in> set T \<Longrightarrow> \<forall>x \<in> set T. c \<notin> set (snd x) \<Longrightarrow> c \<notin> set (applyTable T s)"
proof (induction T arbitrary: s)
  case Nil
  then show ?case by simp
next
  case (Cons x T)
  obtain leet normal where x: "x = (leet, normal)" by (cases x)
  show ?case
  proof (cases "x = ([c], new)")
    case True
    with Cons.prems have "c \<notin> set (ReplaceAll s [c] new)"
      by (intro ReplaceAll_removes_byte) auto
    with Cons.prems have "c \<notin> set (applyTable T (ReplaceAll s [c] new))"
      by (intro applyTable_keeps_absent) auto
    with True show ?thesis by simp
  next
    case False
    with Cons.prems have "([c], new) \<in> set T" by auto
    with Cons x show ?thesis by simp
  qed
qed

lemma set_Join: "set (Join xs sep) \<subseteq> \<Union> (set ` set xs) \<union> set sep"
  by (induction xs sep rule: Join.induct) auto

lemma normalizeLeetSpeak_removes:
  assumes "valid_order R" and "([c], new) \<in> set leetChars"
    and "\<forall>x \<in> set leetChars. c \<notin> set (snd x)"
    and "\<forall>x \<in> set ambiguousLeetMap. \<forall>r \<in> set (snd x). c \<notin> set r"
    and "c \<noteq> CHR '' ''"
  shows "c \<notin> set (normalizeLeetSpeak L R message)"
proof -
  let ?n = "leetStep3 L R message"
  have n: "c \<notin> set ?n"
    using assms(1-3) unfolding leetStep3_def valid_order_def
    by (intro applyTable_removes_byte [where new = new]) simp_all
  have "\<forall>x \<in> set (expandAmbiguous (ambiguous_order R) ?n []). c \<notin> set x"
  proof
    fix x assume "x \<in> set (expandAmbiguous (ambiguous_order R) ?n [])"
    then obtain e r where "e \<in> set (ambiguous_order R)" "r \<in> set (snd e)"
      "x = ReplaceAll ?n (fst e) r"
      by (auto simp: expandAmbiguous_eq copiesOf_def)
    with assms(1,4) n set_ReplaceAll [of ?n "fst e" r] show "c \<notin> set x"
      unfolding valid_order_def by auto
  qed
  with set_Join [of "expandAmbiguous (ambiguous_order R) ?n []" "'' ''"] assms(5)
  have "c \<notin> set (Join (expandAmbiguous (ambiguous_order R) ?n []) '' '')" by auto
  with n show ?thesis by (simp add: normalizeLeetSpeak_def Let_def)
qed

section \<open>The examples, for every order of the tables\<close>

lemma step3_pharty: "valid_order R \<Longrightarrow> leetStep3 L R ''pharty'' = ''farty''"
proof -
  assume v: "valid_order R"
  have l: "ToLower L ''pharty'' = ''pharty''" by (simp add: ToLower_def byte_eval)
  have m: "applyTable (multi_order R) ''pharty'' = ''farty''"
    using v unfolding valid_order_def
    by (intro applyTable_once [where e = "(''ph'', ''f'')"]) (simp_all add: multiCharLeet_def)
  have s: "applyTable (single_order R) ''farty'' = ''farty''"
    using v unfolding valid_order_def
    by (intro applyTable_fixed) (simp add: leetChars_def)
  show ?thesis by (simp add: leetStep3_def l m s)
qed

lemma leet_pharty: "valid_order R \<Longrightarrow> normalizeLeetSpeak L R ''pharty'' = ''farty''"
proof -
  assume v: "valid_order R"
  have "expandAmbiguous (ambiguous_order R) ''farty'' [] = []"
    using v unfolding valid_order_def
    by (intro expandAmbiguous_none) (simp add: ambiguousLeetMap_def)
  with v show ?thesis by (simp add: normalizeLeetSpeak_plain step3_pharty)
qed

lemma step3_h3o: "valid_order R \<Longrightarrow> leetStep3 L R ''h3||o'' = ''he||o''"
proof -
  assume v: "valid_order R"
  have l: "ToLower L ''h3||o'' = ''h3||o''" by (simp add: ToLower_def byte_eval)
  have m: "applyTable (multi_order R) ''h3||o'' = ''h3||o''"
    using v unfolding valid_order_def
    by (intro applyTable_fixed) (simp add: multiCharLeet_def)
  have s: "applyTable (single_order R) ''h3||o'' = ''he||o''"
    using v unfolding valid_order_def
    by (intro applyTable_once [where e = "(''3'', ''e'')"]) (simp_all add: leetChars_def)
  show ?thesis by (simp add: leetStep3_def l m s)
qed

lemma leet_h3o: "valid_order R \<Longrightarrow> normalizeLeetSpeak L R ''h3||o'' = ''heiio hello''"
proof -
  assume v: "valid_order R"
  have "expandAmbiguous (ambiguous_order R) ''he||o'' [] = copiesOf ''he||o'' (''|'', [''i'', ''l''])"
    using v unfolding valid_order_def
    by (intro expandAmbiguous_single) (simp_all add: ambiguousLeetMap_def)
  with v show ?thesis by (simp add: normalizeLeetSpeak_def step3_h3o copiesOf_def)
qed

lemma Check_pharty:
  "valid_order R \<Longrightarrow> Check L R (NewSwearFilter False [''farty'']) ''pharty'' = Inr [''farty'']"
  by (simp add: stage_defs leet_pharty)

lemma Check_h3o:
  "valid_order R \<Longrightarrow> Check L R (NewSwearFilter False [''hello'']) ''h3||o'' = Inr [''hello'']"
  by (simp add: stage_defs leet_h3o)

lemma step3_jerk: "valid_order R \<Longrightarrow> leetStep3 L R ''jerk'' = ''ierk''"
proof -
  assume v: "valid_order R"
  have l: "ToLower L ''jerk'' = ''jerk''" by (simp add: ToLower_def byte_eval)
  have m: "applyTable (multi_order R) ''jerk'' = ''jerk''"
    using v unfolding valid_order_def
    by (intro applyTable_fixed) (simp add: multiCharLeet_def)
  have s: "applyTable (single_order R) ''jerk'' = ''ierk''"
    using v unfolding valid_order_def
    by (intro applyTable_once [where e = "(''j'', ''i'')"]) (simp_all add: leetChars_def)
  show ?thesis by (simp add: leetStep3_def l m s)
qed

lemma leet_jerk: "valid_order R \<Longrightarrow> normalizeLeetSpeak L R ''jerk'' = ''ierk''"
proof -
  assume v: "valid_order R"
  have "expandAmbiguous (ambiguous_order R) ''ierk'' [] = []"
    using v unfolding valid_order_def
    by (intro expandAmbiguous_none) (simp add: ambiguousLeetMap_def)
  with v show ?thesis by (simp add: normalizeLeetSpeak_plain step3_jerk)
qed

lemma step3_parens: "valid_order R \<Longrightarrow> leetStep3 L R ''()'' = ''o''"
proof -
  assume v: "valid_order R"
  have l: "ToLower L ''()'' = ''()''" by (simp add: ToLower_def byte_eval)
  have m: "applyTable (multi_order R) ''()'' = ''o''"
    using v unfolding valid_order_def
    by (intro applyTable_once [where e = "(''()'', ''o'')"]) (simp_all add: multiCharLeet_def)
  have s: "applyTable (single_order R) ''o'' = ''o''"
    using v unfolding valid_order_def
    by (intro applyTable_fixed) (simp add: leetChars_def)
  show ?thesis by (simp add: leetStep3_def l m s)
qed

lemma singles_first_parens:
  "valid_order R \<Longrightarrow> applyTable (multi_order R) (applyTable (single_order R) ''()'') = ''c)''"
proof -
  assume v: "valid_order R"
  have s: "applyTable (single_order R) ''()'' = ''c)''"
    using v unfolding valid_order_def
    by (intro applyTable_once [where e = "(''('', ''c'')"]) (simp_all add: leetChars_def)
  have m: "applyTable (multi_order R) ''c)'' = ''c)''"
    using v unfolding valid_order_def
    by (intro applyTable_fixed) (simp add: multiCharLeet_def)
  show ?thesis by (simp add: s m)
qed

lemma leet_spaced: "valid_order R \<Longrightarrow> normalizeLeetSpeak L R ''h e l l o'' = ''h e l l o''"
proof -
  assume v: "valid_order R"
  have l: "ToLower L ''h e l l o'' = ''h e l l o''" by (simp add: ToLower_def byte_eval)
  have m: "applyTable (multi_order R) ''h e l l o'' = ''h e l l o''"
    using v unfolding valid_order_def
    by (intro applyTable_fixed) (simp add: multiCharLeet_def)
  have s: "applyTable (single_order R) ''h e l l o'' = ''h e l l o''"
    using v unfolding valid_order_def
    by (intro applyTable_fixed) (simp add: leetChars_def)
  have "expandAmbiguous (ambiguous_order R) ''h e l l o'' [] = []"
    using v unfolding valid_order_def
    by (intro expandAmbiguous_none) (simp add: ambiguousLeetMap_def)
  then show ?thesis by (simp add: normalizeLeetSpeak_def leetStep3_def l m s)
qed

lemma Check_spaced:
  "valid_order R \<Longrightarrow>
   Check L R (NewSwearFilter True [''hello'']) ''h e l l o'' = Inr [''hello''] \<and>
   Check L R (NewSwearFilter False [''hello'']) ''h e l l o'' = Inr []"
  by (simp add: stage_defs leet_spaced)

section \<open>Case folding\<close>

lemma Check_cong_ToLower:
  assumes "ToLower L a = ToLower L b"
  shows "Check L R flt a = Check L R flt b"
proof -
  from assms have "normalizedText L R flt a = normalizedText L R flt b"
    by (simp add: normalizedText_def leetStage_def)
  then show ?thesis by (simp add: Check_def split: option.splits)
qed

lemma upperByte_ascii: "isASCII c \<Longrightarrow> isASCII (upperByte c)"
  by (auto simp: isASCII_def upperByte_def Let_def intro: less_imp_diff_less)

lemma lower_upper_byte: "lowerByte (upperByte c) = lowerByte c"
proof (cases "97 \<le> (of_char c :: nat) \<and> (of_char c :: nat) \<le> 122")
  case True
  define n :: nat where "n = of_char c"
  with True have n: "97 \<le> n" "n \<le> 122" by simp_all
  have u: "upperByte c = char_of (n - 32)" using True by (simp add: upperByte_def n_def)
  have r: "65 \<le> n - 32" "n - 32 \<le> 90" using n by arith+
  have "(of_char (char_of (n - 32)) :: nat) = n - 32" using n by simp
  then have "lowerByte (char_of (n - 32)) = char_of (n - 32 + 32)"
    using r by (simp add: lowerByte_def Let_def)
  also have "\<dots> = c" using n by (simp add: n_def)
  finally have "lowerByte (upperByte c) = c" using u by simp
  moreover have "lowerByte c = c" using True by (simp add: lowerByte_def)
  ultimately show ?thesis by simp
next
  case False
  then have "upperByte c = c" by (auto simp: upperByte_def)
  then show ?thesis by simp
qed

lemma ToLower_ToUpper_ascii:
  "list_all isASCII t \<Longrightarrow> ToLower L (ToUpper L t) = ToLower L t"
  by (simp add: ToLower_def ToUpper_def list_all_iff upperByte_ascii lower_upper_byte)

section \<open>NUL bytes\<close>

lemma ReplaceAll_absent: "old \<noteq> [] \<Longrightarrow> hd old \<notin> set s \<Longrightarrow> ReplaceAll s old new = s"
proof (induction s old new rule: ReplaceAll.induct)
  case (1 old new)
  then show ?case by simp
next
  case (2 c s old new)
  from 2(3,4) have "\<not> prefix old (c # s)" by (cases old) auto
  with 2 show ?case by simp
qed

lemma spaceRuneAt_NUL: "spaceRuneAt (NUL # s) = None"
  by (simp add: spaceRuneAt_def spaceRunes_def NUL_def)

lemma pieces_NUL: "pieces (replicate n NUL) = replicate n (Byte NUL)"
  by (induction n) (simp_all add: spaceRuneAt_NUL)

lemma leadCloseScan_Bytes: "leadCloseScan b (replicate n (Byte c)) = replicate n (Byte c)"
  by (induction n arbitrary: b) simp_all

lemma insideScan_Bytes: "insideScan (replicate n (Byte c)) = replicate n (Byte c)"
  by (induction n) simp_all

lemma unpieces_Bytes: "unpieces (replicate n (Byte c)) = replicate n c"
  by (induction n) simp_all

lemma sanitize_NUL: "sanitize flt (replicate n NUL) = replicate n NUL"
proof -
  have t: "ReplaceAll (replicate n NUL) [CHR 0x09] '' '' = replicate n NUL"
    by (rule ReplaceAll_absent) (auto simp: NUL_def)
  have z: "ReplaceAll (replicate n NUL) [CHR 0xE2, CHR 0x80, CHR 0x8B] [] = replicate n NUL"
    by (rule ReplaceAll_absent) (auto simp: NUL_def)
  have w: "stripWhitespace flt (replicate n NUL) = replicate n NUL"
    by (simp add: stripWhitespace_def regexInsideWhitespace_def regexLeadCloseWhitepace_def
        pieces_NUL leadCloseScan_Bytes insideScan_Bytes unpieces_Bytes)
  show ?thesis by (simp add: sanitize_def Let_def t z w)
qed

lemma ReplaceAll_empty_old: "ReplaceAll s [] new = s"
  by (induction s) simp_all

lemma prefix_append_NUL:
  assumes "NUL \<notin> set w"
  shows "prefix w (s @ replicate k NUL) \<longleftrightarrow> prefix w s"
proof
  assume p: "prefix w (s @ replicate k NUL)"
  show "prefix w s"
  proof (rule ccontr)
    assume n: "\<not> prefix w s"
    with p obtain us where w: "w = s @ us" and u: "prefix us (replicate k NUL)"
      by (auto simp: prefix_append)
    from n w have "us \<noteq> []" by auto
    then obtain u us' where "us = u # us'" by (cases us) auto
    with u have "u = NUL" by (cases k) auto
    with w \<open>us = u # us'\<close> assms show False by simp
  qed
next
  assume "prefix w s"
  then show "prefix w (s @ replicate k NUL)" by (rule prefix_prefix)
qed

lemma ReplaceAll_append_NUL:
  "NUL \<notin> set old \<Longrightarrow>
   ReplaceAll (a @ replicate k NUL) old new = ReplaceAll a old new @ replicate k NUL"
proof (induction a old new rule: ReplaceAll.induct)
  case (1 old new)
  show ?case
  proof (cases old)
    case Nil
    then show ?thesis by (simp add: ReplaceAll_empty_old)
  next
    case (Cons x xs)
    with 1 have "hd old \<notin> set (replicate k NUL)" by auto
    with Cons have "ReplaceAll (replicate k NUL) old new = replicate k NUL"
      by (intro ReplaceAll_absent) simp_all
    then show ?thesis by simp
  qed
next
  case (2 c s old new)
  have p: "prefix old ((c # s) @ replicate k NUL) \<longleftrightarrow> prefix old (c # s)"
    using 2(3) by (rule prefix_append_NUL)
  show ?case
  proof (cases "old \<noteq> [] \<and> prefix old (c # s)")
    case True
    then have "length old \<le> Suc (length s)" by (auto dest: prefix_length_le)
    then have d: "drop (length old - 1) (s @ replicate k NUL) =
                  drop (length old - 1) s @ replicate k NUL"
      by simp
    from True p 2(1) [OF True 2(3)] d show ?thesis by simp
  next
    case False
    with p 2(2) [OF False 2(3)] show ?thesis by auto
  qed
qed

lemma spaceRunes_no_NUL: "w \<in> set spaceRunes \<Longrightarrow> NUL \<notin> set w"
  by (auto simp: spaceRunes_def NUL_def)

lemma spaceRuneAt_append_NUL: "spaceRuneAt (s @ replicate k NUL) = spaceRuneAt s"
  unfolding spaceRuneAt_def
  by (rule find_cong) (simp_all add: prefix_append_NUL spaceRunes_no_NUL)

lemma pieces_append_NUL:
  "pieces (a @ replicate k NUL) = pieces a @ replicate k (Byte NUL)"
proof (induction a rule: pieces.induct)
  case 1
  then show ?case by (simp add: pieces_NUL)
next
  case (2 c s)
  have e: "spaceRuneAt (c # s @ replicate k NUL) = spaceRuneAt (c # s)"
    using spaceRuneAt_append_NUL [of "c # s" k] by simp
  show ?case
  proof (cases "spaceRuneAt (c # s)")
    case None
    with e 2(1) [OF None] show ?thesis by simp
  next
    case (Some w)
    then have "length w \<le> Suc (length s)"
      by (auto dest!: spaceRuneAt_Some dest: prefix_length_le)
    then have "drop (length w - 1) (s @ replicate k NUL) =
               drop (length w - 1) s @ replicate k NUL"
      by simp
    with e Some 2(2) [OF Some] show ?thesis by simp
  qed
qed

lemma takeWhile_append_stop:
  "ys = [] \<or> \<not> P (hd ys) \<Longrightarrow> takeWhile P (xs @ ys) = takeWhile P xs"
  by (induction xs) (auto simp: takeWhile_eq_Nil_iff)

lemma dropWhile_append_stop:
  "ys = [] \<or> \<not> P (hd ys) \<Longrightarrow> dropWhile P (xs @ ys) = dropWhile P xs @ ys"
  by (induction xs) (auto simp: dropWhile_eq_self_iff)

lemma insideScan_append:
  assumes "ys = [] \<or> \<not> isSpace (hd ys)"
  shows "insideScan (xs @ ys) = insideScan xs @ insideScan ys"
proof (induction xs rule: length_induct)
  case (1 xs)
  show ?case
  proof (cases xs)
    case Nil
    then show ?thesis by simp
  next
    case (Cons p ps)
    have tw: "takeWhile isSpace (ps @ ys) = takeWhile isSpace ps"
      using assms by (rule takeWhile_append_stop)
    have dw: "dropWhile isSpace (ps @ ys) = dropWhile isSpace ps @ ys"
      using assms by (rule dropWhile_append_stop)
    show ?thesis
    proof (cases "isSpace p \<and> 1 \<le> length (takeWhile isSpace ps)")
      case True
      have "length (dropWhile isSpace ps) < length xs"
        using Cons length_dropWhile_le [of isSpace ps] by simp
      with 1 have "insideScan (dropWhile isSpace ps @ ys) =
                   insideScan (dropWhile isSpace ps) @ insideScan ys" by blast
      with True Cons tw dw show ?thesis by simp
    next
      case False
      have "length ps < length xs" using Cons by simp
      with 1 have "insideScan (ps @ ys) = insideScan ps @ insideScan ys" by blast
      with False Cons tw show ?thesis by auto
    qed
  qed
qed

lemma leadCloseScan_append_Bytes:
  assumes "0 < k"
  shows "\<exists>X. leadCloseScan b (P @ replicate k (Byte c)) = X @ replicate k (Byte c)"
proof (induction P arbitrary: b rule: length_induct)
  case (1 P)
  let ?B = "replicate k (Byte c)"
  from assms have hd: "?B = [] \<or> \<not> isSpace (hd ?B)" by (cases k) auto
  show ?case
  proof (cases P)
    case Nil
    have "leadCloseScan b ?B = [] @ ?B" using leadCloseScan_Bytes [of b k c] by simp
    with Nil show ?thesis by (metis append_Nil)
  next
    case (Cons p ps)
    have na: "\<not> list_all isSpace (ps @ ?B)" using assms by (cases k) auto
    have dw: "dropWhile isSpace (ps @ ?B) = dropWhile isSpace ps @ ?B"
      using hd by (rule dropWhile_append_stop)
    show ?thesis
    proof (cases "isSpace p \<and> b")
      case True
      have "length (dropWhile isSpace ps) < length P"
        using Cons length_dropWhile_le [of isSpace ps] by simp
      with 1 obtain X where "leadCloseScan False (dropWhile isSpace ps @ ?B) = X @ ?B" by blast
      moreover have "leadCloseScan b (P @ ?B) = leadCloseScan False (dropWhile isSpace ps @ ?B)"
        using True Cons dw by simp
      ultimately show ?thesis by metis
    next
      case False
      have "length ps < length P" using Cons by simp
      with 1 obtain X where X: "leadCloseScan False (ps @ ?B) = X @ ?B" by blast
      have "leadCloseScan b (P @ ?B) = p # leadCloseScan False (ps @ ?B)"
        using False Cons na by auto
      with X have "leadCloseScan b (P @ ?B) = (p # X) @ ?B" by simp
      then show ?thesis by blast
    qed
  qed
qed

lemma stripWhitespace_append_NUL:
  "\<exists>x. stripWhitespace flt (a @ replicate k NUL) = x @ replicate k NUL"
proof (cases "k = 0 \<or> DisableMultiWhitespaceStripping flt")
  case True
  then show ?thesis by (auto simp: stripWhitespace_def)
next
  case False
  let ?B = "replicate k (Byte NUL)"
  let ?N = "replicate k NUL"
  from False have k: "0 < k" by simp
  then have hd: "?B = [] \<or> \<not> isSpace (hd ?B)" by (cases k) auto
  obtain X where X: "leadCloseScan True (pieces a @ ?B) = X @ ?B"
    using leadCloseScan_append_Bytes [OF k] by blast
  have l: "regexLeadCloseWhitepace (a @ ?N) = unpieces X @ ?N"
    unfolding regexLeadCloseWhitepace_def pieces_append_NUL X
    by (simp add: unpieces_Bytes)
  have "insideScan (pieces (unpieces X) @ ?B) = insideScan (pieces (unpieces X)) @ insideScan ?B"
    using hd by (rule insideScan_append)
  then have "regexInsideWhitespace (unpieces X @ ?N) =
             unpieces (insideScan (pieces (unpieces X))) @ ?N"
    unfolding regexInsideWhitespace_def pieces_append_NUL
    by (simp add: insideScan_Bytes unpieces_Bytes)
  with l False show ?thesis by (auto simp: stripWhitespace_def)
qed

lemma sanitize_append_NUL:
  "\<exists>x. sanitize flt (a @ replicate k NUL) = x @ replicate k NUL"
proof -
  define t where "t = (if \<not> DisableSpacedTab flt then ReplaceAll a [CHR 0x09] '' '' else a)"
  define z where "z = (if \<not> DisableZeroWidthStripping flt
                       then ReplaceAll t [CHR 0xE2, CHR 0x80, CHR 0x8B] [] else t)"
  have n1: "NUL \<notin> set [CHR 0x09]" and n2: "NUL \<notin> set [CHR 0xE2, CHR 0x80, CHR 0x8B]"
    by (simp_all add: NUL_def)
  have 1: "(if \<not> DisableSpacedTab flt
            then ReplaceAll (a @ replicate k NUL) [CHR 0x09] '' '' else a @ replicate k NUL) =
           t @ replicate k NUL"
    by (simp add: t_def ReplaceAll_append_NUL [OF n1])
  have 2: "(if \<not> DisableZeroWidthStripping flt
            then ReplaceAll (t @ replicate k NUL) [CHR 0xE2, CHR 0x80, CHR 0x8B] []
            else t @ replicate k NUL) = z @ replicate k NUL"
    by (simp add: z_def ReplaceAll_append_NUL [OF n2])
  have "sanitize flt (a @ replicate k NUL) = stripWhitespace flt (z @ replicate k NUL)"
    unfolding sanitize_def Let_def 1 2 ..
  with stripWhitespace_append_NUL [of flt z k] show ?thesis by simp
qed

section \<open>What the multi-character table leaves\<close>

lemma prefix_ReplaceAll:
  "new \<noteq> [] \<Longrightarrow> set new \<inter> set w = {} \<Longrightarrow> prefix w (ReplaceAll s old new) \<Longrightarrow> prefix w s"
proof (induction s old new arbitrary: w rule: ReplaceAll.induct)
  case (1 old new)
  then show ?case by simp
next
  case (2 c s old new)
  show ?case
  proof (cases w)
    case Nil
    then show ?thesis by simp
  next
    case (Cons x w')
    show ?thesis
    proof (cases "old \<noteq> [] \<and> prefix old (c # s)")
      case True
      obtain y new' where n: "new = y # new'" using 2(3) by (cases new) auto
      with True 2(5) Cons have "x = y" by simp
      with n Cons 2(4) show ?thesis by auto
    next
      case False
      with 2(5) Cons have x: "x = c" and p: "prefix w' (ReplaceAll s old new)" by auto
      from 2(4) Cons have "set new \<inter> set w' = {}" by auto
      from 2(2) [OF False 2(3) this p] have "prefix w' s" .
      with x Cons show ?thesis by simp
    qed
  qed
qed

lemma Contains_skip:
  "w \<noteq> [] \<Longrightarrow> set new \<inter> set w = {} \<Longrightarrow> Contains (new @ y) w \<Longrightarrow> Contains y w"
proof (induction new)
  case Nil
  then show ?case by simp
next
  case (Cons x new)
  obtain v w' where w: "w = v # w'" using Cons.prems(1) by (cases w) auto
  from Cons.prems(2) w have "v \<noteq> x" by auto
  with w have "\<not> prefix w (x # new @ y)" by simp
  with Cons.prems(3) have "Contains (new @ y) w" by simp
  moreover from Cons.prems(2) have "set new \<inter> set w = {}" by auto
  ultimately show ?case using Cons.IH Cons.prems(1) by blast
qed

lemma Contains_drop: "Contains (drop n s) w \<Longrightarrow> Contains s w"
proof -
  assume "Contains (drop n s) w"
  then obtain a b where "drop n s = a @ w @ b" by (auto simp: Contains_iff)
  then have "s = (take n s @ a) @ w @ b" by (metis append_take_drop_id append_assoc)
  then show ?thesis unfolding Contains_iff by blast
qed

lemma Contains_Nil: "Contains s []"
  by (induction s) simp_all

lemma Contains_ReplaceAll:
  "new \<noteq> [] \<Longrightarrow> set new \<inter> set w = {} \<Longrightarrow> Contains (ReplaceAll s old new) w \<Longrightarrow>
   Contains s w"
proof (induction s old new rule: ReplaceAll.induct)
  case (1 old new)
  then show ?case by simp
next
  case (2 c s old new)
  show ?case
  proof (cases "w = []")
    case True
    then show ?thesis by (simp add: Contains_Nil)
  next
    case wne: False
    show ?thesis
    proof (cases "old \<noteq> [] \<and> prefix old (c # s)")
      case True
      with 2(5) have "Contains (new @ ReplaceAll (drop (length old - 1) s) old new) w"
        by simp
      from Contains_skip [OF wne 2(4) this]
      have "Contains (ReplaceAll (drop (length old - 1) s) old new) w" .
      from 2(1) [OF True 2(3) 2(4) this] have "Contains (drop (length old - 1) s) w" .
      then have "Contains s w" by (rule Contains_drop)
      then show ?thesis by simp
    next
      case False
      from 2(5) consider "prefix w (ReplaceAll (c # s) old new)"
        | "Contains (ReplaceAll s old new) w"
        using False by auto
      then show ?thesis
      proof cases
        case 1
        from prefix_ReplaceAll [OF 2(3) 2(4) 1] show ?thesis by simp
      next
        case 2
        from "2.IH"(2) [OF False "2.prems"(1) "2.prems"(2) 2] show ?thesis by simp
      qed
    qed
  qed
qed

lemma ReplaceAll_leaves_none:
  "old \<noteq> [] \<Longrightarrow> new \<noteq> [] \<Longrightarrow> set new \<inter> set old = {} \<Longrightarrow>
   \<not> Contains (ReplaceAll s old new) old"
proof (induction s old new rule: ReplaceAll.induct)
  case (1 old new)
  then show ?case by simp
next
  case (2 c s old new)
  show ?case
  proof (cases "old \<noteq> [] \<and> prefix old (c # s)")
    case True
    show ?thesis
    proof
      assume "Contains (ReplaceAll (c # s) old new) old"
      with True have "Contains (new @ ReplaceAll (drop (length old - 1) s) old new) old"
        by simp
      from Contains_skip [OF 2(3) 2(5) this] 2(1) [OF True 2(3) 2(4) 2(5)]
      show False by simp
    qed
  next
    case False
    show ?thesis
    proof
      assume a: "Contains (ReplaceAll (c # s) old new) old"
      then consider "prefix old (ReplaceAll (c # s) old new)"
        | "Contains (ReplaceAll s old new) old"
        using False by auto
      then show False
      proof cases
        case 1
        from prefix_ReplaceAll [OF 2(4) 2(5) 1] False 2(3) show False by simp
      next
        case 2
        with "2.IH"(2) [OF False "2.prems"] show False by simp
      qed
    qed
  qed
qed

lemma applyTable_creates_none:
  "\<forall>x \<in> set T. snd x \<noteq> [] \<and> set (snd x) \<inter> set p = {} \<Longrightarrow> \<not> Contains s p \<Longrightarrow>
   \<not> Contains (applyTable T s) p"
proof (induction T arbitrary: s)
  case Nil
  then show ?case by simp
next
  case (Cons x T)
  obtain leet normal where x: "x = (leet, normal)" by (cases x)
  with Cons.prems have "normal \<noteq> []" "set normal \<inter> set p = {}" by auto
  with Cons.prems(2) have "\<not> Contains (ReplaceAll s leet normal) p"
    using Contains_ReplaceAll by blast
  with Cons x show ?case by simp
qed

lemma applyTable_leaves_none:
  "(p, r) \<in> set T \<Longrightarrow> p \<noteq> [] \<Longrightarrow> \<forall>x \<in> set T. snd x \<noteq> [] \<and> set (snd x) \<inter> set p = {} \<Longrightarrow>
   \<not> Contains (applyTable T s) p"
proof (induction T arbitrary: s)
  case Nil
  then show ?case by simp
next
  case (Cons x T)
  obtain leet normal where x: "x = (leet, normal)" by (cases x)
  show ?case
  proof (cases "x = (p, r)")
    case True
    with Cons.prems have "\<not> Contains (ReplaceAll s p r) p"
      by (intro ReplaceAll_leaves_none) auto
    with Cons.prems have "\<not> Contains (applyTable T (ReplaceAll s p r)) p"
      by (intro applyTable_creates_none) auto
    with True show ?thesis by simp
  next
    case False
    with Cons.prems have "(p, r) \<in> set T" by auto
    with Cons x show ?thesis by simp
  qed
qed

lemma multi_table_disjoint:
  "\<forall>e \<in> set multiCharLeet. fst e \<noteq> [] \<and>
     (\<forall>x \<in> set multiCharLeet. snd x \<noteq> [] \<and> set (snd x) \<inter> set (fst e) = {})"
  by (simp add: multiCharLeet_def)

lemma multi_phase_complete:
  assumes "valid_order R" and "(p, r) \<in> set multiCharLeet"
  shows "\<not> Contains (applyTable (multi_order R) s) p"
proof -
  from assms(1) have s: "set (multi_order R) = set multiCharLeet" by (simp add: valid_order_def)
  from multi_table_disjoint assms(2)
  have "p \<noteq> []" "\<forall>x \<in> set multiCharLeet. snd x \<noteq> [] \<and> set (snd x) \<inter> set p = {}"
    by fastforce+
  with assms(2) s show ?thesis by (intro applyTable_leaves_none [where r = r]) simp_all
qed

section \<open>A multi-character pattern between plain texts\<close>

lemma plain_hd:
  "plain a \<Longrightarrow> e \<in> set multiCharLeet \<union> set leetChars \<Longrightarrow> hd (fst e) \<notin> set a"
  by (auto simp: plain_def leetFirstBytes_def list_all_iff)

lemma patterns_nonempty: "e \<in> set multiCharLeet \<union> set leetChars \<Longrightarrow> fst e \<noteq> []"
  by (auto simp: multiCharLeet_def leetChars_def)

lemma plain_fixed:
  "plain a \<Longrightarrow> e \<in> set multiCharLeet \<union> set leetChars \<Longrightarrow> ReplaceAll a (fst e) (snd e) = a"
  by (intro ReplaceAll_absent patterns_nonempty plain_hd)

lemma ReplaceAll_after_plain:
  "old \<noteq> [] \<Longrightarrow> hd old \<notin> set a \<Longrightarrow> ReplaceAll (a @ s) old new = a @ ReplaceAll s old new"
proof (induction a)
  case Nil
  then show ?case by simp
next
  case (Cons c a)
  obtain x old' where o: "old = x # old'" using Cons.prems(1) by (cases old) auto
  with Cons.prems(2) have "\<not> prefix old (c # a @ s)" by auto
  with Cons show ?case by simp
qed

lemma ReplaceAll_at_head:
  "old \<noteq> [] \<Longrightarrow> ReplaceAll (old @ s) old new = new @ ReplaceAll s old new"
  by (cases old) simp_all

lemma plain_letters:
  "x \<in> set multiCharLeet \<Longrightarrow> e \<in> set multiCharLeet \<union> set leetChars \<Longrightarrow>
   hd (fst e) \<notin> set (snd x)"
  by (auto simp: multiCharLeet_def leetChars_def)

lemma multi_heads_apart:
  "\<forall>e \<in> set multiCharLeet. \<forall>x \<in> set multiCharLeet. x \<noteq> e \<longrightarrow> hd (fst x) \<notin> set (fst e)"
  by (simp add: multiCharLeet_def)

lemma other_multi_fixed:
  assumes "(p, r) \<in> set multiCharLeet" and "x \<in> set multiCharLeet" and "x \<noteq> (p, r)"
    and "plain b"
  shows "ReplaceAll (p @ b) (fst x) (snd x) = p @ b"
proof -
  from multi_heads_apart assms(1-3) have "hd (fst x) \<notin> set p" by fastforce
  moreover from assms(2,4) have "hd (fst x) \<notin> set b" by (simp add: plain_hd)
  moreover from assms(2) have "fst x \<noteq> []" by (simp add: patterns_nonempty)
  ultimately show ?thesis by (intro ReplaceAll_absent) simp_all
qed

lemma multi_rule_in_context:
  assumes v: "valid_order R" and e: "(p, r) \<in> set multiCharLeet"
    and a: "plain a" and b: "plain b"
  shows "applyTable (single_order R) (applyTable (multi_order R) (a @ p @ b)) = a @ r @ b"
proof -
  from v have sm: "set (multi_order R) = set multiCharLeet"
    and ss: "set (single_order R) = set leetChars" by (simp_all add: valid_order_def)
  from e have pne: "p \<noteq> []" using patterns_nonempty [of "(p, r)"] by simp
  have fixed: "ReplaceAll (a @ r @ b) (fst x) (snd x) = a @ r @ b"
    if "x \<in> set multiCharLeet \<union> set leetChars" for x
  proof -
    from that a b e have "hd (fst x) \<notin> set (a @ r @ b)"
      using plain_letters [of "(p, r)" x] by (simp add: plain_hd)
    with that show ?thesis by (intro ReplaceAll_absent patterns_nonempty)
  qed
  have "ReplaceAll (a @ p @ b) p r = a @ ReplaceAll (p @ b) p r"
    using e a pne plain_hd [of a "(p, r)"] by (intro ReplaceAll_after_plain) simp_all
  also have "\<dots> = a @ r @ ReplaceAll b p r" using pne by (simp add: ReplaceAll_at_head)
  also have "\<dots> = a @ r @ b" using plain_fixed [OF b, of "(p, r)"] e by simp
  finally have own: "ReplaceAll (a @ p @ b) (fst (p, r)) (snd (p, r)) = a @ r @ b" by simp
  have others: "\<forall>x \<in> set (multi_order R). x \<noteq> (p, r) \<longrightarrow>
      ReplaceAll (a @ p @ b) (fst x) (snd x) = a @ p @ b"
  proof (intro ballI impI)
    fix x assume x: "x \<in> set (multi_order R)" and ne: "x \<noteq> (p, r)"
    with sm have xm: "x \<in> set multiCharLeet" by simp
    then have "ReplaceAll (a @ p @ b) (fst x) (snd x) = a @ ReplaceAll (p @ b) (fst x) (snd x)"
      using a by (intro ReplaceAll_after_plain patterns_nonempty plain_hd) simp_all
    with other_multi_fixed [OF e xm ne b]
    show "ReplaceAll (a @ p @ b) (fst x) (snd x) = a @ p @ b" by simp
  qed
  have m: "applyTable (multi_order R) (a @ p @ b) = a @ r @ b"
    using e sm own others fixed by (intro applyTable_once [where e = "(p, r)"]) simp_all
  have s: "applyTable (single_order R) (a @ r @ b) = a @ r @ b"
    using ss fixed by (intro applyTable_fixed) simp
  from m s show ?thesis by simp
qed

lemma applyTable_two:
  assumes "e1 \<in> set T" and "e2 \<in> set T" and "e1 \<noteq> e2"
    and "ReplaceAll s (fst e1) (snd e1) = s1" and "ReplaceAll s (fst e2) (snd e2) = s2"
    and "ReplaceAll s1 (fst e2) (snd e2) = s12" and "ReplaceAll s2 (fst e1) (snd e1) = s12"
    and "\<forall>x \<in> set T. x \<noteq> e1 \<and> x \<noteq> e2 \<longrightarrow> ReplaceAll s (fst x) (snd x) = s"
    and "\<forall>x \<in> set T. x \<noteq> e2 \<longrightarrow> ReplaceAll s1 (fst x) (snd x) = s1"
    and "\<forall>x \<in> set T. x \<noteq> e1 \<longrightarrow> ReplaceAll s2 (fst x) (snd x) = s2"
    and "\<forall>x \<in> set T. ReplaceAll s12 (fst x) (snd x) = s12"
  shows "applyTable T s = s12"
  using assms
proof (induction T)
  case Nil
  then show ?case by simp
next
  case (Cons x T)
  obtain leet normal where x: "x = (leet, normal)" by (cases x)
  consider "x = e1" | "x = e2" "x \<noteq> e1" | "x \<noteq> e1" "x \<noteq> e2" by blast
  then show ?case
  proof cases
    case 1
    with Cons.prems x have h: "ReplaceAll s leet normal = s1" by auto
    from 1 Cons.prems have "e2 \<in> set T" by auto
    with Cons.prems have "applyTable T s1 = s12"
      by (intro applyTable_once [where e = e2]) simp_all
    with h x show ?thesis by simp
  next
    case 2
    with Cons.prems x have h: "ReplaceAll s leet normal = s2" by auto
    from 2 Cons.prems have "e1 \<in> set T" by auto
    with Cons.prems have "applyTable T s2 = s12"
      by (intro applyTable_once [where e = e1]) simp_all
    with h x show ?thesis by simp
  next
    case 3
    with Cons.prems x have h: "ReplaceAll s leet normal = s" by auto
    from 3 Cons.prems have "e1 \<in> set T" "e2 \<in> set T" by auto
    with Cons.prems have "applyTable T s = s12" by (intro Cons.IH) simp_all
    with h x show ?thesis by simp
  qed
qed

lemma step3_ph_parens: "valid_order R \<Longrightarrow> leetStep3 L R ''ph()'' = ''fo''"
proof -
  assume v: "valid_order R"
  have l: "ToLower L ''ph()'' = ''ph()''" by (simp add: ToLower_def byte_eval)
  have m: "applyTable (multi_order R) ''ph()'' = ''fo''"
    using v unfolding valid_order_def
    by (intro applyTable_two [where ?e1.0 = "(''ph'', ''f'')" and ?e2.0 = "(''()'', ''o'')"
          and ?s1.0 = "''f()''" and ?s2.0 = "''pho''"])
      (simp_all add: multiCharLeet_def)
  have s: "applyTable (single_order R) ''fo'' = ''fo''"
    using v unfolding valid_order_def
    by (intro applyTable_fixed) (simp add: leetChars_def)
  show ?thesis by (simp add: leetStep3_def l m s)
qed

section \<open>The claims\<close>

subsection \<open>C1: the only error\<close>

text \<open>
  Claim C1. \<open>Check\<close> returns an error only when the folding stage fails on malformed
  input; otherwise it succeeds. The code does not keep to this. The only error is the one
  of the chain call (\<open>Check_error_from_chain\<close>), and \<open>Check\<close> gives that call a destination
  of \<^verbatim>\<open>len(message)\<close> bytes (line 97) and never looks at the number of bytes written
  (line 101): the chain runs out of room on well-formed text whose folded form is longer
  than the text. The half note U+1D15E is well-formed UTF-8 of four bytes, its folded form
  has eight, and \<open>Check\<close> returns the chain's \<^verbatim>\<open>ErrShortDst\<close> with no tripped words.
\<close>

theorem Check_error_on_valid_input:
  "ValidString [CHR 0xF0, CHR 0x9D, CHR 0x85, CHR 0x9E] \<and>
   Check sample_lib source_order (NewSwearFilter False [''x''])
     [CHR 0xF0, CHR 0x9D, CHR 0x85, CHR 0x9E] = Inl ErrShortDst"
  by code_simp

subsection \<open>C2: whitespace runs are deleted\<close>

text \<open>
  Claim C2. With multi-whitespace stripping enabled, the pieces of every message split
  into a leading run of whitespace, a core that neither starts nor ends with
  whitespace, and a trailing run; the stage drops both runs and scans the core. In the
  scan, a run of two or more whitespace runes after a piece that is not whitespace is
  deleted as a whole, so that what stands before it and what stands after it are
  joined with nothing between them; a single whitespace rune between two other pieces
  is kept; and a text without whitespace is unchanged.
\<close>

theorem whitespace_stripping:
  assumes "\<not> DisableMultiWhitespaceStripping flt"
  shows "(\<exists>lead core trail.
            pieces message = lead @ core @ trail \<and>
            list_all isSpace lead \<and> list_all isSpace trail \<and>
            (core = [] \<or> \<not> isSpace (hd core) \<and> \<not> isSpace (last core))) \<and>
         (\<forall>lead core trail.
            pieces message = lead @ core @ trail \<and>
            list_all isSpace lead \<and> list_all isSpace trail \<and>
            (core = [] \<or> \<not> isSpace (hd core) \<and> \<not> isSpace (last core)) \<longrightarrow>
            stripWhitespace flt message = unpieces (insideScan core)) \<and>
         (\<forall>a run b.
            list_all isSpace run \<and> 2 \<le> length run \<and> a \<noteq> [] \<and> \<not> isSpace (last a) \<and>
            (b = [] \<or> \<not> isSpace (hd b)) \<longrightarrow>
            insideScan (a @ run @ b) = insideScan a @ insideScan b) \<and>
         (\<forall>a w b.
            a \<noteq> [] \<and> \<not> isSpace (last a) \<and> b \<noteq> [] \<and> \<not> isSpace (hd b) \<longrightarrow>
            insideScan (a @ Space w # b) = insideScan a @ Space w # insideScan b) \<and>
         (\<forall>xs. list_all (\<lambda>p. \<not> isSpace p) xs \<longrightarrow> insideScan xs = xs)"
proof (intro conjI allI impI)
  show "\<exists>lead core trail.
            pieces message = lead @ core @ trail \<and>
            list_all isSpace lead \<and> list_all isSpace trail \<and>
            (core = [] \<or> \<not> isSpace (hd core) \<and> \<not> isSpace (last core))"
    by (rule trim_decomposition)
next
  fix lead core trail
  assume h: "pieces message = lead @ core @ trail \<and>
            list_all isSpace lead \<and> list_all isSpace trail \<and>
            (core = [] \<or> \<not> isSpace (hd core) \<and> \<not> isSpace (last core))"
  then have "regexLeadCloseWhitepace message = unpieces core"
    by (simp add: regexLeadCloseWhitepace_def leadCloseScan_trim)
  moreover from h have "pieces message = lead @ core @ trail" by simp
  then have "pieces (unpieces core) = core" by (rule canonical_middle)
  ultimately show "stripWhitespace flt message = unpieces (insideScan core)"
    using assms by (simp add: stripWhitespace_def regexInsideWhitespace_def)
next
  fix a run b
  assume h: "list_all isSpace run \<and> 2 \<le> length run \<and> a \<noteq> [] \<and> \<not> isSpace (last a) \<and>
             (b = [] \<or> \<not> isSpace (hd b))"
  then have "insideScan (a @ run @ b) = insideScan a @ insideScan (run @ b)"
    by (intro insideScan_split) simp_all
  also have "insideScan (run @ b) = insideScan b"
    using h by (intro insideScan_run) simp_all
  finally show "insideScan (a @ run @ b) = insideScan a @ insideScan b" .
next
  fix a w b
  assume h: "a \<noteq> [] \<and> \<not> isSpace (last a) \<and> b \<noteq> [] \<and> \<not> isSpace (hd b)"
  then have "insideScan (a @ Space w # b) = insideScan a @ insideScan (Space w # b)"
    by (intro insideScan_split) simp_all
  also have "insideScan (Space w # b) = Space w # insideScan b"
    using h by (intro insideScan_single) simp_all
  finally show "insideScan (a @ Space w # b) = insideScan a @ Space w # insideScan b" .
next
  fix xs :: "piece list"
  assume "list_all (\<lambda>p. \<not> isSpace p) xs"
  then show "insideScan xs = xs" by (rule insideScan_nospace)
qed

theorem whitespace_stripping_witness:
  "stripWhitespace (NewSwearFilter False [''x''])
     ('' '' @ [CHR 0xC2, CHR 0xA0] @ ''big'' @ [CHR 0x09, CHR 0xE3, CHR 0x80, CHR 0x80] @
      ''bad wolf '')
   = ''bigbad wolf''"
proof -
  let ?m = "'' '' @ [CHR 0xC2, CHR 0xA0] @ ''big'' @ [CHR 0x09, CHR 0xE3, CHR 0x80, CHR 0x80] @
            ''bad wolf ''"
  let ?lead = "[Space '' '', Space [CHR 0xC2, CHR 0xA0]]"
  let ?a = "[Byte CHR ''b'', Byte CHR ''i'', Byte CHR ''g'']"
  let ?run = "[Space [CHR 0x09], Space [CHR 0xE3, CHR 0x80, CHR 0x80]]"
  let ?b = "[Byte CHR ''b'', Byte CHR ''a'', Byte CHR ''d'', Space '' '', Byte CHR ''w'',
             Byte CHR ''o'', Byte CHR ''l'', Byte CHR ''f'']"
  let ?trail = "[Space '' '']"
  have f: "\<not> DisableMultiWhitespaceStripping (NewSwearFilter False [''x''])"
    by (simp add: NewSwearFilter_def)
  note t = whitespace_stripping [OF f, of ?m]
  have p: "pieces ?m = ?lead @ (?a @ ?run @ ?b) @ ?trail" by code_simp
  from t have "\<forall>lead core trail.
            pieces ?m = lead @ core @ trail \<and>
            list_all isSpace lead \<and> list_all isSpace trail \<and>
            (core = [] \<or> \<not> isSpace (hd core) \<and> \<not> isSpace (last core)) \<longrightarrow>
            stripWhitespace (NewSwearFilter False [''x'']) ?m = unpieces (insideScan core)"
    by (elim conjE)
  from this [rule_format, of ?lead "?a @ ?run @ ?b" ?trail] p
  have 1: "stripWhitespace (NewSwearFilter False [''x'']) ?m =
           unpieces (insideScan (?a @ ?run @ ?b))"
    by simp
  from t have "\<forall>a run b.
            list_all isSpace run \<and> 2 \<le> length run \<and> a \<noteq> [] \<and> \<not> isSpace (last a) \<and>
            (b = [] \<or> \<not> isSpace (hd b)) \<longrightarrow>
            insideScan (a @ run @ b) = insideScan a @ insideScan b"
    by (elim conjE)
  from this [rule_format, of ?run ?a ?b]
  have "insideScan (?a @ ?run @ ?b) = insideScan ?a @ insideScan ?b" by simp
  with 1 show ?thesis by simp
qed

subsection \<open>C3: the sentinel\<close>

text \<open>
  Claim C3. If the banned set contains the single-space sentinel and \<open>Check\<close> reaches the
  matching loop with the normalized text \<open>m\<close>, then the sentinel is among the tripped
  words if and only if \<open>m\<close> is empty. The sentinel is never matched as a substring: a
  non-empty text that contains a space does not trip it.
\<close>

theorem sentinel_iff_empty:
  assumes "BadWords flt = Some ws" and "'' '' \<in> set ws"
    and "normalizedText L R flt msg = Inr m"
  shows "\<exists>tripped. Check L R flt msg = Inr tripped \<and> ('' '' \<in> set tripped \<longleftrightarrow> m = [])"
proof -
  from assms(2) have "ws \<noteq> []" by auto
  with assms have "Check L R flt msg = Inr (matchWords flt ws m)" by (simp add: Check_Some)
  moreover have "'' '' \<in> set (matchWords flt ws m) \<longleftrightarrow> m = []"
    using assms(2) by (auto simp: matchWords_eq trips_def)
  ultimately show ?thesis by blast
qed

theorem sentinel_witness:
  "(\<exists>tripped. Check sample_lib source_order (NewSwearFilter False ['' '', ''b'']) ''  '' =
      Inr tripped \<and> '' '' \<in> set tripped) \<and>
   (\<exists>tripped. Check sample_lib source_order (NewSwearFilter False ['' '', ''b'']) ''a b'' =
      Inr tripped \<and> '' '' \<notin> set tripped)"
proof -
  let ?f = "NewSwearFilter False ['' '', ''b'']"
  have b: "BadWords ?f = Some ['' '', ''b'']" "'' '' \<in> set ['' '', ''b'']"
    by (simp_all add: NewSwearFilter_def)
  have 1: "normalizedText sample_lib source_order ?f ''  '' = Inr []"
    by code_simp
  have 2: "normalizedText sample_lib source_order ?f ''a b'' = Inr ''a b''"
    by code_simp
  from sentinel_iff_empty [OF b 1] sentinel_iff_empty [OF b 2] show ?thesis by simp
qed

subsection \<open>C4: ambiguous symbols\<close>

text \<open>
  Claim C4. The normalizer's output is built from the string \<open>normalized\<close> of step 3: for
  every ambiguous pattern that occurs in it, in the order of the loop, and for every
  candidate letter of that pattern, one copy of \<open>normalized\<close> with all occurrences of the
  pattern replaced by the candidate; the output is the copies joined with single
  spaces, or \<open>normalized\<close> itself when there is no copy. The text \<open>h3||o\<close> becomes
  \<open>heiio hello\<close> and trips the banned word \<open>hello\<close>, whatever the order of the tables.
\<close>

theorem ambiguous_expansion:
  "normalizeLeetSpeak L R message =
     (let normalized = leetStep3 L R message;
          copies = [ReplaceAll normalized leet replacement.
                      (leet, possibilities) \<leftarrow> ambiguous_order R, Contains normalized leet,
                      replacement \<leftarrow> possibilities]
      in if copies = [] then normalized else Join copies '' '') \<and>
   (valid_order R \<longrightarrow>
      normalizeLeetSpeak L R ''h3||o'' = ''heiio hello'' \<and>
      Check L R (NewSwearFilter False [''hello'']) ''h3||o'' = Inr [''hello''])"
proof -
  have c: "concat (map (copiesOf s) (filter (\<lambda>e. Contains s (fst e)) T)) =
        [ReplaceAll s leet replacement.
           (leet, possibilities) \<leftarrow> T, Contains s leet, replacement \<leftarrow> possibilities]" for s T
    by (induction T) (auto simp: copiesOf_def)
  have i: "(if 0 < length xs then A else B) = (if xs = [] then B else A)"
    for xs :: "string list" and A B :: string
    by simp
  have "normalizeLeetSpeak L R message =
     (let normalized = leetStep3 L R message;
          copies = [ReplaceAll normalized leet replacement.
                      (leet, possibilities) \<leftarrow> ambiguous_order R, Contains normalized leet,
                      replacement \<leftarrow> possibilities]
      in if copies = [] then normalized else Join copies '' '')"
    unfolding normalizeLeetSpeak_def expandAmbiguous_eq c i Let_def append_Nil ..
  moreover have "valid_order R \<longrightarrow>
      normalizeLeetSpeak L R ''h3||o'' = ''heiio hello'' \<and>
      Check L R (NewSwearFilter False [''hello'']) ''h3||o'' = Inr [''hello'']"
    by (simp add: leet_h3o Check_h3o)
  ultimately show ?thesis by simp
qed

theorem ambiguous_expansion_witness:
  "normalizeLeetSpeak sample_lib source_order ''h3||o'' = ''heiio hello'' \<and>
   Check sample_lib source_order (NewSwearFilter False [''hello'']) ''h3||o'' = Inr [''hello'']"
  using ambiguous_expansion [of sample_lib source_order "''h3||o''", THEN conjunct2]
    valid_source_order by simp

subsection \<open>C5: multi-character rules first\<close>

text \<open>
  Claim C5. The normalizer applies the whole multi-character table before the
  single-character table, for every message and every order of the entries inside the
  two tables:
  \<^item> the result is the single-character table applied to what the multi-character table
    makes of the lower-cased message, and in that text no multi-character pattern is
    left: every rule of the table has been applied to every occurrence;
  \<^item> a multi-character pattern standing between two plain texts becomes its letter, so
    no single-character rule has consumed one of its bytes first;
  \<^item> \<open>pharty\<close> becomes \<open>farty\<close> and trips the banned word \<open>farty\<close>, and \<open>ph()\<close>, where two
    rules of the table apply, becomes \<open>fo\<close>;
  \<^item> the order of the two tables is the one that matters: \<open>()\<close> becomes \<open>o\<close> by the
    multi-character rule, where the single-character table applied first would leave
    \<open>c)\<close>.
\<close>

theorem multi_before_single:
  assumes "valid_order R"
  shows "leetStep3 L R ''pharty'' = ''farty'' \<and>
         Check L R (NewSwearFilter False [''farty'']) ''pharty'' = Inr [''farty''] \<and>
         leetStep3 L R ''()'' = ''o'' \<and>
         applyTable (multi_order R) (applyTable (single_order R) ''()'') = ''c)'' \<and>
         leetStep3 L R message =
           applyTable (single_order R) (applyTable (multi_order R) (ToLower L message)) \<and>
         (\<forall>(p, r) \<in> set multiCharLeet.
            \<not> Contains (applyTable (multi_order R) (ToLower L message)) p) \<and>
         (\<forall>(p, r) \<in> set multiCharLeet. \<forall>a b.
            plain a \<and> plain b \<and> ToLower L message = a @ p @ b \<longrightarrow>
              leetStep3 L R message = a @ r @ b) \<and>
         leetStep3 L R ''ph()'' = ''fo''"
proof -
  have 1: "\<forall>(p, r) \<in> set multiCharLeet.
            \<not> Contains (applyTable (multi_order R) (ToLower L message)) p"
    using assms by (auto simp: multi_phase_complete)
  have 2: "\<forall>(p, r) \<in> set multiCharLeet. \<forall>a b.
            plain a \<and> plain b \<and> ToLower L message = a @ p @ b \<longrightarrow>
              leetStep3 L R message = a @ r @ b"
    using assms by (auto simp: leetStep3_def multi_rule_in_context)
  have 3: "leetStep3 L R message =
           applyTable (single_order R) (applyTable (multi_order R) (ToLower L message))"
    by (simp add: leetStep3_def)
  from assms have 4: "leetStep3 L R ''pharty'' = ''farty'' \<and>
         Check L R (NewSwearFilter False [''farty'']) ''pharty'' = Inr [''farty''] \<and>
         leetStep3 L R ''()'' = ''o'' \<and>
         applyTable (multi_order R) (applyTable (single_order R) ''()'') = ''c)'' \<and>
         leetStep3 L R ''ph()'' = ''fo''"
    by (simp add: step3_pharty Check_pharty step3_parens singles_first_parens step3_ph_parens)
  from 1 2 3 4 show ?thesis by blast
qed

theorem multi_before_single_witness:
  "leetStep3 sample_lib source_order ''pharty'' = ''farty'' \<and>
   Check sample_lib source_order (NewSwearFilter False [''farty'']) ''pharty'' = Inr [''farty''] \<and>
   leetStep3 sample_lib source_order ''()'' = ''o'' \<and>
   leetStep3 sample_lib source_order ''ph()'' = ''fo'' \<and>
   leetStep3 sample_lib source_order ''l()ok'' = ''look'' \<and>
   \<not> Contains (applyTable multiCharLeet ''ph()'') ''()''"
proof -
  note t = multi_before_single [OF valid_source_order, of sample_lib "''l()ok''"]
  have e: "(''()'', ''o'') \<in> set multiCharLeet" by (simp add: multiCharLeet_def)
  have h: "plain ''l'' \<and> plain ''ok'' \<and> ToLower sample_lib ''l()ok'' = ''l'' @ ''()'' @ ''ok''"
    by code_simp
  from t have "\<forall>(p, r) \<in> set multiCharLeet. \<forall>a b.
            plain a \<and> plain b \<and> ToLower sample_lib ''l()ok'' = a @ p @ b \<longrightarrow>
              leetStep3 sample_lib source_order ''l()ok'' = a @ r @ b" by blast
  with e h have 1: "leetStep3 sample_lib source_order ''l()ok'' = ''l'' @ ''o'' @ ''ok''"
    by blast
  note u = multi_before_single [OF valid_source_order, of sample_lib "''ph()''"]
  have l: "ToLower sample_lib ''ph()'' = ''ph()''" by code_simp
  from u have "\<forall>(p, r) \<in> set multiCharLeet.
      \<not> Contains (applyTable (multi_order source_order) (ToLower sample_lib ''ph()'')) p"
    by blast
  with e have 2: "\<not> Contains (applyTable multiCharLeet ''ph()'') ''()''"
    unfolding l by (auto simp: source_order_def)
  from t 1 2 show ?thesis by simp
qed

subsection \<open>C6: the spaced bypass\<close>

text \<open>
  Claim C6. When \<open>Check\<close> reaches the matching loop with the normalized text \<open>m\<close>, a
  banned token other than the sentinel is tripped if and only if it occurs in \<open>m\<close> or,
  with \<open>EnableSpacedBypass\<close>, in \<open>m\<close> with every ordinary space removed; no token is
  recorded twice. In particular the text \<open>h e l l o\<close> trips the banned word \<open>hello\<close>
  with the bypass and trips nothing without it, whatever the order of the tables.
\<close>

theorem spaced_bypass_matching:
  "(BadWords flt = Some ws \<and> ws \<noteq> [] \<and> distinct ws \<and> normalizedText L R flt msg = Inr m \<longrightarrow>
      (\<exists>tripped. Check L R flt msg = Inr tripped \<and> distinct tripped \<and>
         (\<forall>w. w \<noteq> '' '' \<longrightarrow>
            (w \<in> set tripped \<longleftrightarrow>
               w \<in> set ws \<and>
               (Contains m w \<or>
                EnableSpacedBypass flt \<and> Contains (ReplaceAll m '' '' []) w))))) \<and>
   (valid_order R \<longrightarrow>
      Check L R (NewSwearFilter True [''hello'']) ''h e l l o'' = Inr [''hello''] \<and>
      Check L R (NewSwearFilter False [''hello'']) ''h e l l o'' = Inr [])"
proof (intro conjI impI)
  assume a: "BadWords flt = Some ws \<and> ws \<noteq> [] \<and> distinct ws \<and>
             normalizedText L R flt msg = Inr m"
  then have c: "Check L R flt msg = Inr (matchWords flt ws m)" by (simp add: Check_Some)
  have d: "distinct (matchWords flt ws m)"
    using a by (auto simp: matchWords_eq trips_def)
  have "\<forall>w. w \<noteq> '' '' \<longrightarrow>
          (w \<in> set (matchWords flt ws m) \<longleftrightarrow>
             w \<in> set ws \<and>
             (Contains m w \<or> EnableSpacedBypass flt \<and> Contains (ReplaceAll m '' '' []) w))"
    by (auto simp: matchWords_eq trips_def)
  with c d show "\<exists>tripped. Check L R flt msg = Inr tripped \<and> distinct tripped \<and>
         (\<forall>w. w \<noteq> '' '' \<longrightarrow>
            (w \<in> set tripped \<longleftrightarrow>
               w \<in> set ws \<and>
               (Contains m w \<or>
                EnableSpacedBypass flt \<and> Contains (ReplaceAll m '' '' []) w)))"
    by blast
next
  assume "valid_order R"
  then show "Check L R (NewSwearFilter True [''hello'']) ''h e l l o'' = Inr [''hello'']"
    by (simp add: Check_spaced)
next
  assume "valid_order R"
  then show "Check L R (NewSwearFilter False [''hello'']) ''h e l l o'' = Inr []"
    by (simp add: Check_spaced)
qed

theorem spaced_bypass_witness:
  "Check sample_lib source_order (NewSwearFilter True [''hello'']) ''h e l l o'' = Inr [''hello''] \<and>
   Check sample_lib source_order (NewSwearFilter False [''hello'']) ''h e l l o'' = Inr [] \<and>
   (\<exists>tripped. Check sample_lib source_order (NewSwearFilter True [''he'', ''o w'', ''x''])
        ''h e l l o w'' = Inr tripped \<and>
      distinct tripped \<and> ''he'' \<in> set tripped \<and> ''o w'' \<in> set tripped \<and>
      ''x'' \<notin> set tripped)"
proof -
  let ?f = "NewSwearFilter True [''he'', ''o w'', ''x'']"
  let ?ws = "[''he'', ''o w'', ''x'']"
  note t = spaced_bypass_matching
    [of ?f ?ws sample_lib source_order "''h e l l o w''" "''h e l l o w''"]
  have n: "normalizedText sample_lib source_order ?f ''h e l l o w'' = Inr ''h e l l o w''"
    by code_simp
  have "BadWords ?f = Some ?ws \<and> ?ws \<noteq> [] \<and> distinct ?ws \<and>
        normalizedText sample_lib source_order ?f ''h e l l o w'' = Inr ''h e l l o w''"
    using n by (simp add: NewSwearFilter_def)
  with t obtain tripped where c: "Check sample_lib source_order ?f ''h e l l o w'' = Inr tripped"
    and d: "distinct tripped"
    and w: "\<forall>w. w \<noteq> '' '' \<longrightarrow>
            (w \<in> set tripped \<longleftrightarrow>
               w \<in> set ?ws \<and>
               (Contains ''h e l l o w'' w \<or>
                EnableSpacedBypass ?f \<and> Contains (ReplaceAll ''h e l l o w'' '' '' []) w))"
    by blast
  from w [rule_format, of "''he''"] have 1: "''he'' \<in> set tripped"
    by (simp add: NewSwearFilter_def)
  from w [rule_format, of "''o w''"] have 2: "''o w'' \<in> set tripped"
    by (simp add: NewSwearFilter_def)
  from w [rule_format, of "''x''"] have 3: "''x'' \<notin> set tripped"
    by (simp add: NewSwearFilter_def)
  from t valid_source_order
  have 4: "Check sample_lib source_order (NewSwearFilter True [''hello'']) ''h e l l o'' =
             Inr [''hello'']"
    and 5: "Check sample_lib source_order (NewSwearFilter False [''hello'']) ''h e l l o'' = Inr []"
    by blast+
  from c d 1 2 3 4 5 show ?thesis by blast
qed

subsection \<open>C7: upper-cased text\<close>

text \<open>
  Claim C7, as amended. \<open>Check\<close> reads its text only through \<^verbatim>\<open>strings.ToLower\<close>. So
  \<open>Check\<close> on a text and on its upper-cased form give the same result whenever the
  upper-cased form lower-cases to the same string as the text itself, which every text
  of ASCII bytes does.
\<close>

theorem Check_upper_cased:
  assumes "list_all isASCII t \<or> ToLower L (ToUpper L t) = ToLower L t"
  shows "Check L R flt (ToUpper L t) = Check L R flt t"
  using assms by (auto intro: Check_cong_ToLower simp: ToLower_ToUpper_ascii)

theorem Check_upper_cased_witness:
  "Check sample_lib source_order (NewSwearFilter False [''hello'']) (ToUpper sample_lib ''Hello'') =
   Check sample_lib source_order (NewSwearFilter False [''hello'']) ''Hello''"
  using Check_upper_cased [of "''Hello''" sample_lib source_order "NewSwearFilter False [''hello'']"]
  by (simp add: isASCII_def)

text \<open>
  The claim as stated fails outside ASCII. The upper case of dotless i (U+0131) is the
  letter I, whose lower case is the dotted i: with the banned word \<open>i\<close>, the text made of
  a dotless i trips nothing and its upper-cased form trips \<open>i\<close>.
\<close>

theorem Check_upper_cased_counterexample:
  "Check sample_lib source_order (NewSwearFilter False [''i''])
     (ToUpper sample_lib [CHR 0xC4, CHR 0xB1]) = Inr [''i''] \<and>
   Check sample_lib source_order (NewSwearFilter False [''i'']) [CHR 0xC4, CHR 0xB1] = Inr [] \<and>
   Check sample_lib source_order (NewSwearFilter False [''i''])
     (ToUpper sample_lib [CHR 0xC4, CHR 0xB1]) \<noteq>
   Check sample_lib source_order (NewSwearFilter False [''i'']) [CHR 0xC4, CHR 0xB1]"
  by code_simp

subsection \<open>C8: no banned words\<close>

text \<open>
  Claim C8. For every input text and every configuration, if the banned-word set is
  empty or nil, \<open>Check\<close> returns an empty result and no error, and no normalization
  stage runs: the result is the same for every library and every order of the tables,
  also for a text on which the chain fails.
\<close>

theorem Check_empty_set:
  "BadWords flt = None \<or> BadWords flt = Some [] \<Longrightarrow> Check L R flt msg = Inr []"
  by (auto simp: Check_def)

theorem Check_empty_set_witness:
  "Check sample_lib source_order ((NewSwearFilter True [])\<lparr>BadWords := None\<rparr>)
     [CHR 0xF0, CHR 0x9D, CHR 0x85, CHR 0x9E] = Inr [] \<and>
   Check sample_lib source_order (NewSwearFilter True [])
     [CHR 0xF0, CHR 0x9D, CHR 0x85, CHR 0x9E] = Inr []"
  using Check_empty_set [of "(NewSwearFilter True [])\<lparr>BadWords := None\<rparr>" sample_lib source_order
      "[CHR 0xF0, CHR 0x9D, CHR 0x85, CHR 0x9E]"]
    Check_empty_set [of "NewSwearFilter True []" sample_lib source_order
      "[CHR 0xF0, CHR 0x9D, CHR 0x85, CHR 0x9E]"]
  by (simp add: NewSwearFilter_def)

subsection \<open>C9: banned words with j or v\<close>

text \<open>
  Claim C9. With leet normalization, no byte \<open>j\<close> and no byte \<open>v\<close> is left in the output
  of the normalizer, whatever the message, while the banned words are compared as they
  are. So the banned word \<open>jerk\<close> is not tripped by the text \<open>jerk\<close>, which the
  normalizer turns into \<open>ierk\<close>.
\<close>

theorem j_and_v_rewritten:
  assumes "valid_order R"
  shows "CHR ''j'' \<notin> set (normalizeLeetSpeak L R message) \<and>
         CHR ''v'' \<notin> set (normalizeLeetSpeak L R message) \<and>
         normalizeLeetSpeak L R ''jerk'' = ''ierk'' \<and>
         Check L R (NewSwearFilter False [''jerk'']) ''jerk'' = Inr []"
proof (intro conjI)
  show "CHR ''j'' \<notin> set (normalizeLeetSpeak L R message)"
    using assms by (rule normalizeLeetSpeak_removes [where new = "''i''"])
      (simp_all add: leetChars_def ambiguousLeetMap_def)
  show "CHR ''v'' \<notin> set (normalizeLeetSpeak L R message)"
    using assms by (rule normalizeLeetSpeak_removes [where new = "''u''"])
      (simp_all add: leetChars_def ambiguousLeetMap_def)
  show "normalizeLeetSpeak L R ''jerk'' = ''ierk''" using assms by (rule leet_jerk)
  show "Check L R (NewSwearFilter False [''jerk'']) ''jerk'' = Inr []"
    using assms by (simp add: stage_defs leet_jerk)
qed

theorem j_and_v_witness:
  "CHR ''j'' \<notin> set (normalizeLeetSpeak sample_lib source_order ''jove'') \<and>
   CHR ''v'' \<notin> set (normalizeLeetSpeak sample_lib source_order ''jove'') \<and>
   Check sample_lib source_order (NewSwearFilter False [''jerk'']) ''jerk'' = Inr []"
  using j_and_v_rewritten [OF valid_source_order, of sample_lib "''jove''"] by simp

subsection \<open>C10: the buffer of the folding stage\<close>

text \<open>
  Claim C10, as amended. With diacritic folding enabled, let \<open>m\<close> be the lower-cased,
  leet-normalized message, not all ASCII, and let the chain call on \<open>m\<close> return no error,
  having written \<open>out\<close>, no longer than \<open>m\<close>. The folding stage hands on \<open>out\<close> followed
  by NUL bytes up to the length of \<open>m\<close>, and the text used for matching is what the tab,
  zero-width and whitespace stages make of that string: it still ends with these NUL
  bytes, and it is the string itself when the three stages are disabled. When the chain
  has written nothing (\<open>out\<close> is empty, as for a message of nonspacing marks only), the
  text used for matching is \<open>length m\<close> NUL bytes under every configuration, it is not
  empty, and the sentinel is not tripped. Nothing is said of a call of the chain that
  returns an error.
\<close>

theorem trailing_NUL_bytes:
  assumes "\<not> DisableNormalize flt" and "leetStage L R flt msg = m"
    and "\<not> list_all isASCII m"
    and "chain_Transform L (length m) m = Inr out" and "length out \<le> length m"
  shows "normalizeStage L flt m = Inr (out @ replicate (length m - length out) NUL) \<and>
         normalizedText L R flt msg =
           Inr (sanitize flt (out @ replicate (length m - length out) NUL)) \<and>
         (\<exists>x. normalizedText L R flt msg =
                Inr (x @ replicate (length m - length out) NUL)) \<and>
         (DisableSpacedTab flt \<and> DisableZeroWidthStripping flt \<and>
          DisableMultiWhitespaceStripping flt \<longrightarrow>
            normalizedText L R flt msg = Inr (out @ replicate (length m - length out) NUL)) \<and>
         (out = [] \<longrightarrow>
            normalizedText L R flt msg = Inr (replicate (length m) NUL) \<and>
            replicate (length m) NUL \<noteq> [] \<and>
            (\<forall>ws. BadWords flt = Some ws \<and> ws \<noteq> [] \<longrightarrow>
               (\<exists>tripped. Check L R flt msg = Inr tripped \<and> '' '' \<notin> set tripped)))"
proof -
  let ?buf = "out @ replicate (length m - length out) NUL"
  from assms(3) have ne: "m \<noteq> []" by auto
  have n: "normalizeStage L flt m = Inr ?buf"
    using assms(1,3,4,5) by (simp add: normalizeStage_def normalizeTransform_def)
  then have t: "normalizedText L R flt msg = Inr (sanitize flt ?buf)"
    using assms(2) by (simp add: normalizedText_def)
  have d: "DisableSpacedTab flt \<and> DisableZeroWidthStripping flt \<and>
           DisableMultiWhitespaceStripping flt \<longrightarrow> sanitize flt ?buf = ?buf"
    by (simp add: sanitize_def stripWhitespace_def)
  have e: "out = [] \<longrightarrow>
            normalizedText L R flt msg = Inr (replicate (length m) NUL) \<and>
            replicate (length m) NUL \<noteq> [] \<and>
            (\<forall>ws. BadWords flt = Some ws \<and> ws \<noteq> [] \<longrightarrow>
               (\<exists>tripped. Check L R flt msg = Inr tripped \<and> '' '' \<notin> set tripped))"
  proof (intro impI conjI allI)
    assume o: "out = []"
    with t show nt: "normalizedText L R flt msg = Inr (replicate (length m) NUL)"
      by (simp add: sanitize_NUL)
    from ne show r: "replicate (length m) NUL \<noteq> []" by simp
    fix ws assume "BadWords flt = Some ws \<and> ws \<noteq> []"
    with nt have "Check L R flt msg = Inr (matchWords flt ws (replicate (length m) NUL))"
      by (simp add: Check_Some)
    moreover have "'' '' \<notin> set (matchWords flt ws (replicate (length m) NUL))"
      using ne by (auto simp: matchWords_eq trips_def)
    ultimately show "\<exists>tripped. Check L R flt msg = Inr tripped \<and> '' '' \<notin> set tripped"
      by blast
  qed
  have x: "\<exists>x. normalizedText L R flt msg = Inr (x @ replicate (length m - length out) NUL)"
    using t sanitize_append_NUL [of flt out "length m - length out"] by simp
  from n t x d e show ?thesis by simp
qed

theorem trailing_NUL_witness:
  "normalizedText sample_lib source_order (NewSwearFilter False ['' ''])
     [CHR 0xCC, CHR 0x81] = Inr [NUL, NUL] \<and>
   (\<exists>tripped. Check sample_lib source_order (NewSwearFilter False ['' ''])
      [CHR 0xCC, CHR 0x81] = Inr tripped \<and> '' '' \<notin> set tripped)"
proof -
  let ?f = "NewSwearFilter False ['' '']"
  let ?m = "[CHR 0xCC, CHR 0x81]"
  have 1: "\<not> DisableNormalize ?f" by (simp add: NewSwearFilter_def)
  have 2: "leetStage sample_lib source_order ?f ?m = ?m" by code_simp
  have 3: "\<not> list_all isASCII ?m" by (simp add: isASCII_def)
  have 4: "chain_Transform sample_lib (length ?m) ?m = Inr []" by (simp add: sample_lib_def)
  have 5: "length ([] :: string) \<le> length ?m" by simp
  have 6: "BadWords ?f = Some ['' ''] \<and> ['' ''] \<noteq> []" by (simp add: NewSwearFilter_def)
  from trailing_NUL_bytes
    [OF 1 2 3 4 5, THEN conjunct2, THEN conjunct2, THEN conjunct2, THEN conjunct2] 6
  show ?thesis by (simp add: numeral_2_eq_2)
qed

text \<open>
  The claim as stated takes the output of the folding stage for the text used for
  matching. The later stages still run on it: the letter e, a combining acute accent and
  a tab fold to the letter and the tab, two bytes for four, and the text used for
  matching has a space where the folded text has the tab. And the chain removes the
  nonspacing marks only: the combining stem U+1D165, a spacing mark, is a message of
  combining marks only that comes back as it is, with no NUL byte.
\<close>

theorem trailing_NUL_counterexample:
  "leetStage sample_lib source_order (NewSwearFilter False [''x''])
     [CHR ''e'', CHR 0xCC, CHR 0x81, CHR 0x09] = [CHR ''e'', CHR 0xCC, CHR 0x81, CHR 0x09] \<and>
   chain_Transform sample_lib 4 [CHR ''e'', CHR 0xCC, CHR 0x81, CHR 0x09] =
     Inr [CHR ''e'', CHR 0x09] \<and>
   normalizedText sample_lib source_order (NewSwearFilter False [''x''])
     [CHR ''e'', CHR 0xCC, CHR 0x81, CHR 0x09] = Inr [CHR ''e'', CHR '' '', NUL, NUL] \<and>
   normalizedText sample_lib source_order (NewSwearFilter False [''x''])
     [CHR ''e'', CHR 0xCC, CHR 0x81, CHR 0x09] \<noteq>
     Inr ([CHR ''e'', CHR 0x09] @ replicate (4 - 2) NUL) \<and>
   normalizedText sample_lib source_order (NewSwearFilter False ['' ''])
     [CHR 0xF0, CHR 0x9D, CHR 0x85, CHR 0xA5] = Inr [CHR 0xF0, CHR 0x9D, CHR 0x85, CHR 0xA5] \<and>
   NUL \<notin> set [CHR 0xF0, CHR 0x9D, CHR 0x85, CHR 0xA5]"
  by code_simp

end
